theory Spec2Isabelle
  imports Complex_Main
begin

section \<open>Errors\<close>

text \<open>
  Every \<^verbatim>\<open>throw new Error(...)\<close> of the modelled sources is one constructor; a function
  that may throw returns \<open>error + 'a\<close> with \<open>Inl\<close> for the thrown error.
\<close>

datatype error =
    GotArguments
  | DecrossTooLargeCrash
  | DecrossTooLargeStall
  | TypeError
  | FailedAssert
  | IllDefinedConstraints
  | ConstAccessorNegative
  | NegativeWeights
  | NonPositiveComponent
  | CantStratifyEmpty
  | InvalidId string
  | DuplicateId string
  | MissingId string
  | AccessorError
  | InvalidDag

section \<open>Optimal decrossing (sugiyama/decross/opt.ts)\<close>

datatype LargeHandling = small | medium | large



record opt_options =
  opt_large :: LargeHandling




text \<open>The two overloads of \<^verbatim>\<open>large\<close>: the getter, and the options the setter builds.\<close>

definition large_get :: "opt_options \<Rightarrow> LargeHandling" where
  "large_get options = opt_large options"

definition large_set :: "LargeHandling \<Rightarrow> opt_options \<Rightarrow> opt_options" where
  "large_set val options = options\<lparr>opt_large := val\<rparr>"



section \<open>The dag, as the layering operators read it\<close>

text \<open>
  A node is identified by its position in the iteration \<^verbatim>\<open>for (const node of dag)\<close>
  (the simplex operator labels the nodes the same way, by \<^verbatim>\<open>i.toString()\<close>). The entry
  at position \<open>node\<close> is what \<^verbatim>\<open>node.ichildrenCounts()\<close> yields: the children with the
  number of parallel links to each.
\<close>

type_synonym dag = "(nat \<times> nat) list list"

definition ichildrenCounts :: "dag \<Rightarrow> nat \<Rightarrow> (nat \<times> nat) list" where
  "ichildrenCounts g node = g ! node"

text \<open>
  Iterating a dag reaches the children of every node it yields, so every child is a node
  of the dag.
\<close>

definition wf_dag :: "dag \<Rightarrow> bool" where
  "wf_dag g = list_all (\<lambda>cs. list_all (\<lambda>(child, count). child < length g) cs) g"

text \<open>
  Modelled from the spec: \<^verbatim>\<open>bigrams\<close> of utils.ts, which is not among the sources
  (``pair/bigram iteration''): the pairs of neighbours of a sequence, in order.
\<close>

definition bigrams :: "'a list \<Rightarrow> ('a \<times> 'a) list" where
  "bigrams xs = zip xs (tl xs)"

text \<open>Sequencing of steps that may throw.\<close>

definition bindE :: "error + 'a \<Rightarrow> ('a \<Rightarrow> error + 'b) \<Rightarrow> error + 'b" where
  "bindE r f = (case r of Inl e \<Rightarrow> Inl e | Inr a \<Rightarrow> f a)"

fun foldE :: "('a \<Rightarrow> 's \<Rightarrow> error + 's) \<Rightarrow> 'a list \<Rightarrow> 's \<Rightarrow> error + 's" where
  "foldE f [] s = Inr s"
| "foldE f (x # xs) s = bindE (f x s) (foldE f xs)"

section \<open>Simplex layering (sugiyama/layering/simplex.ts)\<close>

text \<open>
  The name of a constraint, \<^verbatim>\<open>`${prefix}: ${n(first)} -> ${n(second)}`\<close>, kept as its three
  components.
\<close>

type_synonym ckey = "string \<times> nat \<times> nat"

text \<open>
  A \<^verbatim>\<open>Variable\<close>: the objective coefficient under the key \<^verbatim>\<open>opt\<close> and one coefficient for
  each constraint it takes part in.
\<close>

record variable =
  var_opt :: int
  var_coef :: "ckey \<rightharpoonup> int"

text \<open>
  The three records handed to the solver: \<^verbatim>\<open>variables\<close>, \<^verbatim>\<open>constraints\<close> (each is
  \<^verbatim>\<open>{ min: diff }\<close>) and \<^verbatim>\<open>ints\<close>.
\<close>

record lp_model =
  variables :: "nat \<rightharpoonup> variable"
  constraints :: "ckey \<rightharpoonup> int"
  ints :: "nat set"

record simplex_options =
  rank :: "nat \<Rightarrow> int option"
  group_of :: "nat \<Rightarrow> string option"

text \<open>
  Writing a property of \<^verbatim>\<open>variable(node)\<close>; for a node without a variable the source
  writes to \<^verbatim>\<open>undefined\<close>, a TypeError.
\<close>

definition upd_var :: "nat \<Rightarrow> (variable \<Rightarrow> variable) \<Rightarrow> lp_model \<Rightarrow> error + lp_model" where
  "upd_var node f m =
     (case variables m node of
        None \<Rightarrow> Inl TypeError
      | Some v \<Rightarrow> Inr (m\<lparr>variables := (variables m)(node \<mapsto> f v)\<rparr>))"

definition before :: "string \<Rightarrow> nat \<Rightarrow> nat \<Rightarrow> int \<Rightarrow> lp_model \<Rightarrow> error + lp_model" where
  "before prefix first second diff m =
     (let cons = (prefix, first, second) in
      bindE (upd_var first (\<lambda>v. v\<lparr>var_coef := (var_coef v)(cons \<mapsto> - 1)\<rparr>)
               (m\<lparr>constraints := (constraints m)(cons \<mapsto> diff)\<rparr>))
            (upd_var second (\<lambda>v. v\<lparr>var_coef := (var_coef v)(cons \<mapsto> 1)\<rparr>)))"

definition equal_layer :: "string \<Rightarrow> nat \<Rightarrow> nat \<Rightarrow> lp_model \<Rightarrow> error + lp_model" where
  "equal_layer prefix first second m =
     bindE (before (prefix @ '' before'') first second 0 m)
           (before (prefix @ '' after'') second first 0)"

text \<open>
  The first loop: a variable with \<^verbatim>\<open>opt: 0\<close> for every node, and the ranks and groups the
  accessors define. \<^verbatim>\<open>groups\<close> is a \<^verbatim>\<open>Map\<close>, which keeps insertion order.
\<close>

fun group_push :: "string \<Rightarrow> nat \<Rightarrow> (string \<times> nat list) list \<Rightarrow> (string \<times> nat list) list" where
  "group_push g node [] = [(g, [node])]"
| "group_push g node ((g', ns) # gs) =
     (if g = g' then (g', ns @ [node]) # gs else (g', ns) # group_push g node gs)"

definition add_node ::
  "simplex_options \<Rightarrow> nat \<Rightarrow>
   lp_model \<times> (int \<times> nat) list \<times> (string \<times> nat list) list \<Rightarrow>
   lp_model \<times> (int \<times> nat) list \<times> (string \<times> nat list) list" where
  "add_node options node s =
     (case s of (m, ranks, groups) \<Rightarrow>
        (m\<lparr>ints := insert node (ints m),
           variables := (variables m)(node \<mapsto> \<lparr>var_opt = 0, var_coef = Map.empty\<rparr>)\<rparr>,
         (case rank options node of None \<Rightarrow> ranks | Some r \<Rightarrow> ranks @ [(r, node)]),
         (case group_of options node of None \<Rightarrow> groups | Some g \<Rightarrow> group_push g node groups)))"

definition add_nodes ::
  "simplex_options \<Rightarrow> dag \<Rightarrow> lp_model \<times> (int \<times> nat) list \<times> (string \<times> nat list) list" where
  "add_nodes options g =
     fold (add_node options) [0 ..< length g]
       (\<lparr>variables = Map.empty, constraints = Map.empty, ints = {}\<rparr>, [], [])"

text \<open>The second loop, over every link of every node.\<close>

definition add_link :: "nat \<Rightarrow> nat \<times> nat \<Rightarrow> lp_model \<Rightarrow> error + lp_model" where
  "add_link node cc m =
     (case cc of (child, count) \<Rightarrow>
        bindE (before ''link'' node child (if count > 1 then 2 else 1) m) (\<lambda>m1.
        bindE (upd_var node (\<lambda>v. v\<lparr>var_opt := var_opt v + int count\<rparr>) m1)
              (upd_var child (\<lambda>v. v\<lparr>var_opt := var_opt v - int count\<rparr>))))"

definition add_links :: "dag \<Rightarrow> lp_model \<Rightarrow> error + lp_model" where
  "add_links g m =
     foldE (\<lambda>node. foldE (add_link node) (ichildrenCounts g node)) [0 ..< length g] m"

text \<open>
  The rank constraints, from the ranks sorted by \<^verbatim>\<open>ranks.sort(([a], [b]) => a - b)\<close> (a
  stable sort), and the group constraints.
\<close>

definition add_rank :: "(int \<times> nat) \<times> (int \<times> nat) \<Rightarrow> lp_model \<Rightarrow> error + lp_model" where
  "add_rank p m =
     (case p of ((frank, fnode), (srank, snode)) \<Rightarrow>
        if frank < srank then before ''rank'' fnode snode 1 m
        else equal_layer ''rank'' fnode snode m)"

definition add_ranks :: "(int \<times> nat) list \<Rightarrow> lp_model \<Rightarrow> error + lp_model" where
  "add_ranks ranks m = foldE add_rank (bigrams (sort_key fst ranks)) m"

definition add_groups :: "(string \<times> nat list) list \<Rightarrow> lp_model \<Rightarrow> error + lp_model" where
  "add_groups groups m =
     foldE (\<lambda>grp. foldE (\<lambda>(first, second). equal_layer ''group'' first second)
                        (bigrams (snd grp))) groups m"

text \<open>The nodes that belong to some group.\<close>

definition group_nodes :: "(string \<times> nat list) list \<Rightarrow> nat set" where
  "group_nodes gs = (\<Union>grp\<in>set gs. set (snd grp))"

text \<open>Everything \<^verbatim>\<open>simplexCall\<close> does before it calls the solver.\<close>

definition build_lp ::
  "simplex_options \<Rightarrow> dag \<Rightarrow> error + lp_model \<times> (int \<times> nat) list \<times> (string \<times> nat list) list" where
  "build_lp options g =
     (case add_nodes options g of (m0, ranks, groups) \<Rightarrow>
        bindE (add_links g m0) (\<lambda>m1.
        bindE (add_ranks ranks m1) (\<lambda>m2.
        bindE (add_groups groups m2) (\<lambda>m3. Inr (m3, ranks, groups)))))"

text \<open>
  Modelled from the spec: \<^verbatim>\<open>assert\<close> of utils.ts, which is not among the sources. A
  failed assertion ``is an internal error''.
\<close>

definition assert :: "bool \<Rightarrow> error + unit" where
  "assert statement = (if statement then Inr () else Inl FailedAssert)"

text \<open>
  \<^verbatim>\<open>simplexCall\<close>. The solver (simplex.ts, not among the sources) is the parameter
  \<open>solve\<close>; it gives the assignment, a record from node ids to numbers in which some
  zeros are missing, or throws (\<open>None\<close>). The result is \<^verbatim>\<open>node.value\<close> for every node
  of the dag.
\<close>

definition simplexCall ::
  "(lp_model \<Rightarrow> (nat \<rightharpoonup> int) option) \<Rightarrow> simplex_options \<Rightarrow> dag \<Rightarrow> error + (nat \<rightharpoonup> int)" where
  "simplexCall solve options g =
     bindE (build_lp options g) (\<lambda>(m, ranks, groups).
       case solve m of
         Some assignment \<Rightarrow>
           Inr (\<lambda>node. if node < length g
                        then Some (case assignment node of None \<Rightarrow> 0 | Some v \<Rightarrow> v)
                        else None)
       | None \<Rightarrow>
           bindE (assert (length ranks \<noteq> 0 \<or> length groups \<noteq> 0))
                 (\<lambda>_. Inl IllDefinedConstraints))"

text \<open>The overloads of \<^verbatim>\<open>rank\<close> and \<^verbatim>\<open>group\<close>.\<close>

definition rank_get :: "simplex_options \<Rightarrow> nat \<Rightarrow> int option" where
  "rank_get options = rank options"

definition rank_set :: "(nat \<Rightarrow> int option) \<Rightarrow> simplex_options \<Rightarrow> simplex_options" where
  "rank_set newRank options = \<lparr>rank = newRank, group_of = group_of options\<rparr>"

definition group_get :: "simplex_options \<Rightarrow> nat \<Rightarrow> string option" where
  "group_get options = group_of options"

definition group_set :: "(nat \<Rightarrow> string option) \<Rightarrow> simplex_options \<Rightarrow> simplex_options" where
  "group_set newGroup options = \<lparr>rank = rank options, group_of = newGroup\<rparr>"

definition defaultAccessor :: "nat \<Rightarrow> 'a option" where
  "defaultAccessor node = None"

definition simplex :: "'a list \<Rightarrow> error + simplex_options" where
  "simplex args =
     (if args \<noteq> [] then Inl GotArguments
      else Inr \<lparr>rank = defaultAccessor, group_of = defaultAccessor\<rparr>)"

text \<open>
  Modelled from the spec: the objective of the solver, which is not among the sources.
  ``Each variable carries a sparse map of coefficients per constraint plus its objective
  coefficient'', and \<^verbatim>\<open>solve("opt", "max", ...)\<close> maximises the sum of the \<^verbatim>\<open>opt\<close>
  coefficients times the values of the variables. \<open>n\<close> is the number of nodes.
\<close>

definition opt_coef :: "lp_model \<Rightarrow> nat \<Rightarrow> int" where
  "opt_coef m node = (case variables m node of None \<Rightarrow> 0 | Some v \<Rightarrow> var_opt v)"

definition objective :: "nat \<Rightarrow> lp_model \<Rightarrow> (nat \<Rightarrow> int) \<Rightarrow> int" where
  "objective n m x = (\<Sum>node \<leftarrow> [0 ..< n]. opt_coef m node * x node)"

text \<open>The total weighted edge span of a layer assignment.\<close>

definition total_span :: "dag \<Rightarrow> (nat \<Rightarrow> int) \<Rightarrow> int" where
  "total_span g x =
     (\<Sum>node \<leftarrow> [0 ..< length g].
        \<Sum>(child, count) \<leftarrow> ichildrenCounts g node. (x child - x node) * int count)"

section \<open>Longest path layering (sugiyama/layering/longest-path.ts)\<close>

record longestPath_options =
  topDown :: bool

text \<open>
  \<^verbatim>\<open>node.value\<close> is a JavaScript number or \<^verbatim>\<open>undefined\<close>. \<open>None\<close> stands for
  \<^verbatim>\<open>undefined\<close> and for \<^verbatim>\<open>NaN\<close>: \<^verbatim>\<open>undefined + 1\<close> is \<^verbatim>\<open>NaN\<close>, and \<^verbatim>\<open>Math.max\<close> and
  \<^verbatim>\<open>-\<close> give \<^verbatim>\<open>NaN\<close> as soon as one argument is \<^verbatim>\<open>NaN\<close>.
\<close>

type_synonym js_number = "int option"

definition link_span :: "nat \<Rightarrow> int" where
  "link_span count = (if count > 1 then 2 else 1)"

definition plus_span :: "js_number \<Rightarrow> nat \<Rightarrow> js_number" where
  "plus_span v count = (case v of None \<Rightarrow> None | Some a \<Rightarrow> Some (a + link_span count))"

definition math_max :: "js_number \<Rightarrow> js_number \<Rightarrow> js_number" where
  "math_max a b =
     (case a of None \<Rightarrow> None
      | Some x \<Rightarrow> (case b of None \<Rightarrow> None | Some y \<Rightarrow> Some (max x y)))"

definition math_max0 :: "js_number list \<Rightarrow> js_number" where
  "math_max0 vs = foldl math_max (Some 0) vs"

definition minus_num :: "js_number \<Rightarrow> js_number \<Rightarrow> js_number" where
  "minus_num a b =
     (case a of None \<Rightarrow> None
      | Some x \<Rightarrow> (case b of None \<Rightarrow> None | Some y \<Rightarrow> Some (x - y)))"

text \<open>
  Modelled from the spec: \<^verbatim>\<open>getParentCounts\<close> of dag/utils.ts, which is not among the
  sources: for a node, its parents with the multiplicity of the link from each (``max over
  parents p of layer(p) + span(p\<rightarrow>n)''). A node without parents has no entry, which the
  caller reads as the empty list.
\<close>

definition getParentCounts :: "dag \<Rightarrow> nat \<Rightarrow> (nat \<times> nat) list" where
  "getParentCounts g node =
     concat (map (\<lambda>par. map (\<lambda>(child, count). (par, count))
                           (filter (\<lambda>(child, count). child = node) (ichildrenCounts g par)))
                 [0 ..< length g])"

text \<open>The body of the loop over \<^verbatim>\<open>dag.idescendants("before")\<close>.\<close>

definition topDown_step :: "dag \<Rightarrow> nat \<Rightarrow> (nat \<Rightarrow> js_number) \<Rightarrow> (nat \<Rightarrow> js_number)" where
  "topDown_step g node val =
     val(node := math_max0 (map (\<lambda>(par, count). plus_span (val par) count)
                                (getParentCounts g node)))"

text \<open>
  The body of the loop over \<^verbatim>\<open>dag.idescendants("after")\<close>; the state is the values and
  \<^verbatim>\<open>maxHeight\<close>.
\<close>

definition bottomUp_step :: "dag \<Rightarrow> nat \<Rightarrow> (nat \<Rightarrow> js_number) \<times> js_number \<Rightarrow> (nat \<Rightarrow> js_number) \<times> js_number" where
  "bottomUp_step g node s =
     (case s of (val, maxHeight) \<Rightarrow>
        let v = math_max0 (map (\<lambda>(child, count). plus_span (val child) count)
                               (ichildrenCounts g node))
        in (val(node := v), math_max maxHeight v))"

text \<open>The body of the last loop, \<^verbatim>\<open>node.value = maxHeight - node.value!\<close>.\<close>

definition flip_step :: "js_number \<Rightarrow> nat \<Rightarrow> (nat \<Rightarrow> js_number) \<Rightarrow> (nat \<Rightarrow> js_number)" where
  "flip_step maxHeight node val = val(node := minus_num maxHeight (val node))"

text \<open>
  \<^verbatim>\<open>longestPathCall\<close>. The iterators of dag/node.ts are not among the sources: the
  sequences \<^verbatim>\<open>dag.idescendants("before")\<close> and \<^verbatim>\<open>dag.idescendants("after")\<close> yield are the
  parameters \<open>befor\<close> and \<open>after\<close>. The result is \<^verbatim>\<open>node.value\<close> of every node.
\<close>

definition longestPathCall ::
  "nat list \<Rightarrow> nat list \<Rightarrow> longestPath_options \<Rightarrow> dag \<Rightarrow> (nat \<Rightarrow> js_number)" where
  "longestPathCall befor after options g =
     (if topDown options then fold (topDown_step g) befor (\<lambda>node. None)
      else (case fold (bottomUp_step g) after (\<lambda>node. None, Some 0) of
              (val, maxHeight) \<Rightarrow> fold (flip_step maxHeight) [0 ..< length g] val))"

text \<open>
  What the ``after'' iterator promises: it yields nodes of the dag, every node after all
  its children. \<open>seen\<close> are the nodes yielded so far.
\<close>

fun children_first :: "dag \<Rightarrow> nat list \<Rightarrow> nat list \<Rightarrow> bool" where
  "children_first g seen [] = True"
| "children_first g seen (node # rest) =
     (node < length g
      \<and> list_all (\<lambda>(child, count). child \<in> set seen) (ichildrenCounts g node)
      \<and> children_first g (node # seen) rest)"

text \<open>
  What the ``before'' iterator promises: it yields nodes of the dag, every node after all
  its parents.
\<close>

fun parents_first :: "dag \<Rightarrow> nat list \<Rightarrow> nat list \<Rightarrow> bool" where
  "parents_first g seen [] = True"
| "parents_first g seen (node # rest) =
     (node < length g
      \<and> list_all (\<lambda>(par, count). par \<in> set seen) (getParentCounts g node)
      \<and> parents_first g (node # seen) rest)"

text \<open>
  What holds of the nodes visited so far, in either direction: the value of a node is a
  number, it is \<^verbatim>\<open>Math.max(0, ...)\<close> of the values of its parents (its children) plus the
  span of the link, and these were visited before it.
\<close>

definition topDown_invariant :: "dag \<Rightarrow> nat set \<Rightarrow> (nat \<Rightarrow> js_number) \<Rightarrow> bool" where
  "topDown_invariant g seen val =
     (\<forall>n\<in>seen. (\<exists>l. val n = Some l)
        \<and> val n = math_max0 (map (\<lambda>(par, count). plus_span (val par) count)
                                   (getParentCounts g n))
        \<and> (\<forall>(par, count)\<in>set (getParentCounts g n). par \<in> seen))"

definition bottomUp_invariant :: "dag \<Rightarrow> nat set \<Rightarrow> (nat \<Rightarrow> js_number) \<Rightarrow> int \<Rightarrow> bool" where
  "bottomUp_invariant g seen val M =
     (\<forall>n\<in>seen. (\<exists>h. val n = Some h \<and> h \<le> M)
        \<and> val n = math_max0 (map (\<lambda>(child, count). plus_span (val child) count)
                                   (ichildrenCounts g n))
        \<and> (\<forall>(child, count)\<in>set (ichildrenCounts g n). child \<in> seen))"

text \<open>A node without parents, and a node without children.\<close>

definition is_root :: "dag \<Rightarrow> nat \<Rightarrow> bool" where
  "is_root g node =
     list_all (\<lambda>par. list_all (\<lambda>(child, count). child \<noteq> node) (ichildrenCounts g par))
       [0 ..< length g]"

definition is_leaf :: "dag \<Rightarrow> nat \<Rightarrow> bool" where
  "is_leaf g node = (node < length g \<and> ichildrenCounts g node = [])"

text \<open>The dag with the links 0 \<rightarrow> 1, 0 \<rightarrow> 2 (twice) and 1 \<rightarrow> 2.\<close>

definition triangle :: dag where
  "triangle = [[(1, 1), (2, 2)], [(2, 1)], []]"

definition topDown_get :: "longestPath_options \<Rightarrow> bool" where
  "topDown_get options = topDown options"

definition topDown_set :: "bool \<Rightarrow> longestPath_options \<Rightarrow> longestPath_options" where
  "topDown_set val options = options\<lparr>topDown := val\<rparr>"

definition longestPath :: "'a list \<Rightarrow> error + longestPath_options" where
  "longestPath args = (if args \<noteq> [] then Inl GotArguments else Inr \<lparr>topDown = True\<rparr>)"

section \<open>Quadratic coordinate assignment (sugiyama/coord/quad.ts)\<close>

text \<open>
  A weight accessor is a function of a node or of a link. A \<^verbatim>\<open>ConstAccessor\<close> is one
  with a numeric property \<^verbatim>\<open>value\<close>, which is what \<^verbatim>\<open>isConstAccessor\<close> tests.
  Weights are numbers; they are modelled as reals.
\<close>

datatype 'a accessor = ConstAccessor real | FunAccessor "'a \<Rightarrow> real"

definition createConstAccessor :: "real \<Rightarrow> error + 'a accessor" where
  "createConstAccessor v = (if v < 0 then Inl ConstAccessorNegative else Inr (ConstAccessor v))"

fun isConstAccessor :: "'a accessor \<Rightarrow> bool" where
  "isConstAccessor (ConstAccessor v) = True"
| "isConstAccessor (FunAccessor f) = False"

text \<open>Calling an accessor.\<close>

fun call_accessor :: "'a accessor \<Rightarrow> 'a \<Rightarrow> real" where
  "call_accessor (ConstAccessor v) x = v"
| "call_accessor (FunAccessor f) x = f x"

record quad_options =
  vertWeak :: "(nat \<times> nat) accessor"
  vertStrong :: "(nat \<times> nat) accessor"
  linkCurve :: "(nat \<times> nat) accessor"
  nodeCurve :: "nat accessor"
  quad_comp :: real

text \<open>
  The overloads of \<^verbatim>\<open>vertical\<close> and \<^verbatim>\<open>curve\<close>. In the object literal the setter passes
  to \<^verbatim>\<open>buildOperator\<close>, the accessors are created in the order written.
\<close>

definition vertical_get :: "quad_options \<Rightarrow> (real \<times> real) option" where
  "vertical_get opts =
     (case (vertWeak opts, vertStrong opts) of
        (ConstAccessor w, ConstAccessor s) \<Rightarrow> Some (w, s)
      | _ \<Rightarrow> None)"

definition vertical_set :: "real \<times> real \<Rightarrow> quad_options \<Rightarrow> error + quad_options" where
  "vertical_set val opts =
     (case val of (vertNode, vertDummy) \<Rightarrow>
        if vertNode < 0 \<or> vertDummy < 0 then Inl NegativeWeights
        else bindE (createConstAccessor vertNode) (\<lambda>vw.
             bindE (createConstAccessor vertDummy) (\<lambda>vs.
             Inr (opts\<lparr>vertWeak := vw, vertStrong := vs\<rparr>))))"

definition curve_get :: "quad_options \<Rightarrow> (real \<times> real) option" where
  "curve_get opts =
     (case (linkCurve opts, nodeCurve opts) of
        (ConstAccessor l, ConstAccessor n) \<Rightarrow> Some (n, l)
      | _ \<Rightarrow> None)"

definition curve_set :: "real \<times> real \<Rightarrow> quad_options \<Rightarrow> error + quad_options" where
  "curve_set val opts =
     (case val of (curveNode, curveDummy) \<Rightarrow>
        if curveNode < 0 \<or> curveDummy < 0 then Inl NegativeWeights
        else bindE (createConstAccessor curveDummy) (\<lambda>lc.
             bindE (createConstAccessor curveNode) (\<lambda>nc.
             Inr (opts\<lparr>linkCurve := lc, nodeCurve := nc\<rparr>))))"

definition vertWeak_set :: "(nat \<times> nat) accessor \<Rightarrow> quad_options \<Rightarrow> quad_options" where
  "vertWeak_set val opts = opts\<lparr>vertWeak := val\<rparr>"

definition vertStrong_set :: "(nat \<times> nat) accessor \<Rightarrow> quad_options \<Rightarrow> quad_options" where
  "vertStrong_set val opts = opts\<lparr>vertStrong := val\<rparr>"

definition linkCurve_set :: "(nat \<times> nat) accessor \<Rightarrow> quad_options \<Rightarrow> quad_options" where
  "linkCurve_set val opts = opts\<lparr>linkCurve := val\<rparr>"

definition nodeCurve_set :: "nat accessor \<Rightarrow> quad_options \<Rightarrow> quad_options" where
  "nodeCurve_set val opts = opts\<lparr>nodeCurve := val\<rparr>"

definition vertWeak_get :: "quad_options \<Rightarrow> (nat \<times> nat) accessor" where
  "vertWeak_get opts = vertWeak opts"

definition vertStrong_get :: "quad_options \<Rightarrow> (nat \<times> nat) accessor" where
  "vertStrong_get opts = vertStrong opts"

definition linkCurve_get :: "quad_options \<Rightarrow> (nat \<times> nat) accessor" where
  "linkCurve_get opts = linkCurve opts"

definition nodeCurve_get :: "quad_options \<Rightarrow> nat accessor" where
  "nodeCurve_get opts = nodeCurve opts"

definition component_get :: "quad_options \<Rightarrow> real" where
  "component_get opts = quad_comp opts"

definition component_set :: "real \<Rightarrow> quad_options \<Rightarrow> error + quad_options" where
  "component_set val opts =
     (if val \<le> 0 then Inl NonPositiveComponent else Inr (opts\<lparr>quad_comp := val\<rparr>))"

definition quad :: "'a list \<Rightarrow> error + quad_options" where
  "quad args =
     (if args \<noteq> [] then Inl GotArguments
      else bindE (createConstAccessor 1) (\<lambda>vw.
           bindE (createConstAccessor 0) (\<lambda>vs.
           bindE (createConstAccessor 1) (\<lambda>lc.
           bindE (createConstAccessor 0) (\<lambda>nc.
           Inr \<lparr>vertWeak = vw, vertStrong = vs, linkCurve = lc, nodeCurve = nc,
                quad_comp = 1\<rparr>)))))"

section \<open>The sugiyama operator (sugiyama/index.ts)\<close>

text \<open>
  The operators a sugiyama layout is configured with. \<^verbatim>\<open>twoLayer()\<close> of
  decross/two-layer.ts and \<^verbatim>\<open>simplex()\<close> of coord/simplex.ts (imported as
  \<^verbatim>\<open>coordSimplex\<close>) are built by modules that are not among the sources; the operators
  they return are the constants \<open>DecrossTwoLayer\<close> and \<open>CoordSimplex\<close>.
\<close>

datatype layering_operator =
    LayeringSimplex simplex_options
  | LayeringLongestPath longestPath_options

datatype decross_operator =
    DecrossTwoLayer
  | DecrossOpt opt_options

datatype coord_operator =
    CoordSimplex
  | CoordQuad quad_options

text \<open>
  The data of a \<^verbatim>\<open>SugiNode\<close>: \<^verbatim>\<open>{ node }\<close> for a node of the dag, \<^verbatim>\<open>{ link }\<close> for a dummy
  node on a long link.
\<close>

datatype sugi_data = SugiReal nat | SugiDummy "nat \<times> nat"

text \<open>
  \<^verbatim>\<open>defaultNodeSize(node?)\<close> returns \<^verbatim>\<open>[+(node !== undefined), 1]\<close>; the argument is
  \<open>None\<close> when the node is \<^verbatim>\<open>undefined\<close>.
\<close>

definition defaultNodeSize :: "nat option \<Rightarrow> real \<times> real" where
  "defaultNodeSize node = ((if node \<noteq> None then 1 else 0), 1)"

text \<open>
  \<^verbatim>\<open>wrapNodeSizeAccessor\<close>: \<^verbatim>\<open>empty\<close> is \<^verbatim>\<open>acc()\<close>, computed once, and is the size of every
  dummy node.
\<close>

definition wrapNodeSizeAccessor ::
  "(nat option \<Rightarrow> real \<times> real) \<Rightarrow> sugi_data \<Rightarrow> real \<times> real" where
  "wrapNodeSizeAccessor acc =
     (let empty = acc None in
      (\<lambda>node. case node of SugiReal n \<Rightarrow> acc (Some n) | SugiDummy l \<Rightarrow> empty))"

record sugiyama_options =
  layering :: layering_operator
  decross :: decross_operator
  coord :: coord_operator
  size_wh :: "(real \<times> real) option"
  nodeSize :: "(nat option \<Rightarrow> real \<times> real) option"
  sugiNodeSize :: "sugi_data \<Rightarrow> real \<times> real"

definition layering_get :: "sugiyama_options \<Rightarrow> layering_operator" where
  "layering_get options = layering options"

definition layering_set :: "layering_operator \<Rightarrow> sugiyama_options \<Rightarrow> sugiyama_options" where
  "layering_set layer options = options\<lparr>layering := layer\<rparr>"

definition decross_get :: "sugiyama_options \<Rightarrow> decross_operator" where
  "decross_get options = decross options"

definition decross_set :: "decross_operator \<Rightarrow> sugiyama_options \<Rightarrow> sugiyama_options" where
  "decross_set dec options = options\<lparr>decross := dec\<rparr>"

definition coord_get :: "sugiyama_options \<Rightarrow> coord_operator" where
  "coord_get options = coord options"

definition coord_set :: "coord_operator \<Rightarrow> sugiyama_options \<Rightarrow> sugiyama_options" where
  "coord_set crd options = options\<lparr>coord := crd\<rparr>"

definition size_get :: "sugiyama_options \<Rightarrow> (real \<times> real) option" where
  "size_get options = size_wh options"

definition size_set :: "(real \<times> real) option \<Rightarrow> sugiyama_options \<Rightarrow> sugiyama_options" where
  "size_set sz options = options\<lparr>size_wh := sz\<rparr>"

definition nodeSize_get :: "sugiyama_options \<Rightarrow> (nat option \<Rightarrow> real \<times> real) option" where
  "nodeSize_get options = nodeSize options"

definition nodeSize_set ::
  "(nat option \<Rightarrow> real \<times> real) \<Rightarrow> sugiyama_options \<Rightarrow> sugiyama_options" where
  "nodeSize_set sz options =
     options\<lparr>nodeSize := Some sz, sugiNodeSize := wrapNodeSizeAccessor sz\<rparr>"

definition sugiNodeSize_get :: "sugiyama_options \<Rightarrow> sugi_data \<Rightarrow> real \<times> real" where
  "sugiNodeSize_get options = sugiNodeSize options"

definition sugiNodeSize_set ::
  "(sugi_data \<Rightarrow> real \<times> real) \<Rightarrow> sugiyama_options \<Rightarrow> sugiyama_options" where
  "sugiNodeSize_set sz options = options\<lparr>sugiNodeSize := sz, nodeSize := None\<rparr>"

text \<open>
  \<^verbatim>\<open>sugiyama(...args)\<close>, the constructor of the default operator. \<^verbatim>\<open>layerSimplex\<close> is
  \<^verbatim>\<open>simplex\<close> of layering/simplex.ts.
\<close>

definition sugiyama :: "'a list \<Rightarrow> error + sugiyama_options" where
  "sugiyama args =
     (if args \<noteq> [] then Inl GotArguments
      else bindE (simplex ([] :: unit list)) (\<lambda>layerSimplex.
           Inr \<lparr>layering = LayeringSimplex layerSimplex,
                decross = DecrossTwoLayer,
                coord = CoordSimplex,
                size_wh = None,
                nodeSize = Some defaultNodeSize,
                sugiNodeSize = wrapNodeSizeAccessor defaultNodeSize\<rparr>))"

section \<open>Operators as objects\<close>

text \<open>
  An operator is a function object closing over the \<^verbatim>\<open>options\<close> it was built from;
  its getters read \<^verbatim>\<open>options\<close> and its setters call \<^verbatim>\<open>buildOperator\<close> on a fresh object,
  \<^verbatim>\<open>{ ...options, size: sz }\<close>. To state what a call does to the operators that exist,
  the store lists the \<^verbatim>\<open>options\<close> of every operator built so far, and a reference to
  an operator is its position in the store.
\<close>

type_synonym 'o store = "'o list"

definition buildOperator :: "'o \<Rightarrow> 'o store \<Rightarrow> nat \<times> 'o store" where
  "buildOperator options st = (length st, st @ [options])"

definition options_at :: "'o store \<Rightarrow> nat \<Rightarrow> 'o option" where
  "options_at st r = (if r < length st then Some (st ! r) else None)"

text \<open>Calling a getter of the operator \<open>r\<close>.\<close>

definition call_getter :: "('o \<Rightarrow> 'v) \<Rightarrow> 'o store \<Rightarrow> nat \<Rightarrow> 'v option" where
  "call_getter get st r = map_option get (options_at st r)"

text \<open>
  Calling a setter of the operator \<open>r\<close>: the new options are computed from the
  operator's own, which may throw, and \<^verbatim>\<open>buildOperator\<close> makes the operator returned. The
  result comes with the store after the call.
\<close>

definition call_setter ::
  "('o \<Rightarrow> error + 'o) \<Rightarrow> 'o store \<Rightarrow> nat \<Rightarrow> (error + nat) \<times> 'o store" where
  "call_setter new_options st r =
     (case options_at st r of
        None \<Rightarrow> (Inl TypeError, st)
      | Some options \<Rightarrow>
          (case new_options options of
             Inl e \<Rightarrow> (Inl e, st)
           | Inr options' \<Rightarrow>
               (case buildOperator options' st of (r', st') \<Rightarrow> (Inr r', st'))))"

text \<open>
  The getters and setters of the operators, as calls on an operator of the store:
  \<^verbatim>\<open>size\<close> of a sugiyama operator, \<^verbatim>\<open>rank\<close> and \<^verbatim>\<open>group\<close> of a simplex layering operator,
  \<^verbatim>\<open>large\<close> of an opt decrossing operator, \<^verbatim>\<open>topDown\<close> of a longest path operator, and
  \<^verbatim>\<open>curve\<close> and \<^verbatim>\<open>component\<close> of a quad operator, whose setters may throw.
\<close>

definition size_getter :: "sugiyama_options store \<Rightarrow> nat \<Rightarrow> (real \<times> real) option option" where
  "size_getter = call_getter size_get"

definition size_setter ::
  "(real \<times> real) option \<Rightarrow> sugiyama_options store \<Rightarrow> nat
   \<Rightarrow> (error + nat) \<times> sugiyama_options store" where
  "size_setter sz = call_setter (\<lambda>options. Inr (size_set sz options))"

definition rank_getter :: "simplex_options store \<Rightarrow> nat \<Rightarrow> (nat \<Rightarrow> int option) option" where
  "rank_getter = call_getter rank_get"

definition rank_setter ::
  "(nat \<Rightarrow> int option) \<Rightarrow> simplex_options store \<Rightarrow> nat
   \<Rightarrow> (error + nat) \<times> simplex_options store" where
  "rank_setter newRank = call_setter (\<lambda>options. Inr (rank_set newRank options))"

definition group_getter :: "simplex_options store \<Rightarrow> nat \<Rightarrow> (nat \<Rightarrow> string option) option" where
  "group_getter = call_getter group_get"

definition group_setter ::
  "(nat \<Rightarrow> string option) \<Rightarrow> simplex_options store \<Rightarrow> nat
   \<Rightarrow> (error + nat) \<times> simplex_options store" where
  "group_setter newGroup = call_setter (\<lambda>options. Inr (group_set newGroup options))"

definition large_getter :: "opt_options store \<Rightarrow> nat \<Rightarrow> LargeHandling option" where
  "large_getter = call_getter large_get"

definition large_setter ::
  "LargeHandling \<Rightarrow> opt_options store \<Rightarrow> nat \<Rightarrow> (error + nat) \<times> opt_options store" where
  "large_setter val = call_setter (\<lambda>options. Inr (large_set val options))"

definition topDown_getter :: "longestPath_options store \<Rightarrow> nat \<Rightarrow> bool option" where
  "topDown_getter = call_getter topDown_get"

definition topDown_setter ::
  "bool \<Rightarrow> longestPath_options store \<Rightarrow> nat \<Rightarrow> (error + nat) \<times> longestPath_options store" where
  "topDown_setter val = call_setter (\<lambda>options. Inr (topDown_set val options))"

definition curve_getter :: "quad_options store \<Rightarrow> nat \<Rightarrow> (real \<times> real) option option" where
  "curve_getter = call_getter curve_get"

definition curve_setter ::
  "real \<times> real \<Rightarrow> quad_options store \<Rightarrow> nat \<Rightarrow> (error + nat) \<times> quad_options store" where
  "curve_setter val = call_setter (curve_set val)"

definition component_getter :: "quad_options store \<Rightarrow> nat \<Rightarrow> real option" where
  "component_getter = call_getter component_get"

definition component_setter ::
  "real \<Rightarrow> quad_options store \<Rightarrow> nat \<Rightarrow> (error + nat) \<times> quad_options store" where
  "component_setter val = call_setter (component_set val)"

section \<open>Building a dag from tabular data (dag/stratify.ts)\<close>

text \<open>
  The accessors are the user's functions of a datum and its index and may throw. The
  parent data of a datum are pairs of a parent id and the data of the link;
  \<^verbatim>\<open>undefined\<close> (\<open>None\<close>) is read as no parents.
\<close>

type_synonym 'n id_operator = "'n \<Rightarrow> nat \<Rightarrow> error + string"

type_synonym 'n parentIds_operator = "'n \<Rightarrow> nat \<Rightarrow> error + string list option"

type_synonym ('n, 'l) parentData_operator = "'n \<Rightarrow> nat \<Rightarrow> error + (string \<times> 'l) list option"

text \<open>
  Modelled from the spec: \<^verbatim>\<open>verifyId\<close> of dag/verify.ts, which is not among the sources.
  The contract of the id accessor in stratify.ts says ``Ids cannot contain the null
  character'': such an id is refused, any other is returned as it is.
\<close>

definition verifyId :: "string \<Rightarrow> error + string" where
  "verifyId i = (if CHR 0x00 \<in> set i then Inl (InvalidId i) else Inr i)"

text \<open>
  \<^verbatim>\<open>mapping\<close> is a \<^verbatim>\<open>Map\<close> from ids to the node made for the datum and its parent data;
  it keeps insertion order. The node made for the datum at index \<open>i\<close> is \<open>i\<close>.
\<close>

type_synonym 'l id_mapping = "(string \<times> nat \<times> (string \<times> 'l) list) list"

text \<open>The first loop, \<^verbatim>\<open>for (const [i, datum] of data.entries())\<close>.\<close>

fun fill_mapping ::
  "'n id_operator \<Rightarrow> ('n, 'l) parentData_operator \<Rightarrow> nat \<Rightarrow> 'n list \<Rightarrow> 'l id_mapping
   \<Rightarrow> error + 'l id_mapping" where
  "fill_mapping idOp parentDataOp i [] mapping = Inr mapping"
| "fill_mapping idOp parentDataOp i (datum # rest) mapping =
     bindE (idOp datum i) (\<lambda>raw.
     bindE (verifyId raw) (\<lambda>ident.
     bindE (parentDataOp datum i) (\<lambda>pd.
       let pdata = (case pd of None \<Rightarrow> [] | Some p \<Rightarrow> p) in
       if ident \<in> set (map fst mapping) then Inl (DuplicateId ident)
       else fill_mapping idOp parentDataOp (Suc i) rest (mapping @ [(ident, i, pdata)]))))"

text \<open>
  The second loop. The state is \<^verbatim>\<open>dataChildren\<close> of every node, a list of child links
  (child node and link data), and \<^verbatim>\<open>roots\<close>.
\<close>

definition link_parent ::
  "'l id_mapping \<Rightarrow> nat \<Rightarrow> string \<times> 'l \<Rightarrow> (nat \<times> 'l) list list \<Rightarrow> error + (nat \<times> 'l) list list" where
  "link_parent mapping node p children =
     (case p of (pid, linkData) \<Rightarrow>
        (case map_of mapping pid of
           None \<Rightarrow> Inl (MissingId pid)
         | Some (par, _) \<Rightarrow> Inr (children[par := children ! par @ [(node, linkData)]])))"

definition link_node ::
  "'l id_mapping \<Rightarrow> string \<times> nat \<times> (string \<times> 'l) list
   \<Rightarrow> (nat \<times> 'l) list list \<times> nat list \<Rightarrow> error + (nat \<times> 'l) list list \<times> nat list" where
  "link_node mapping entry s =
     (case entry of (ident, node, pdata) \<Rightarrow>
      case s of (children, roots) \<Rightarrow>
        bindE (foldE (link_parent mapping node) pdata children) (\<lambda>children'.
          Inr (children', if pdata = [] then roots @ [node] else roots)))"

text \<open>
  What \<^verbatim>\<open>stratify\<close> returns: \<^verbatim>\<open>new LayoutDagRoot(roots)\<close> for several roots, else
  \<^verbatim>\<open>roots[0]\<close>, which is \<^verbatim>\<open>undefined\<close> when there is no root.
\<close>

datatype dag_handle = LayoutDagRoot "nat list" | LayoutDagNode nat | Undefined

record ('n, 'l) layout_dag =
  node_data :: "'n list"
  dataChildren :: "(nat \<times> 'l) list list"
  handle :: dag_handle

text \<open>
  The call of a stratify operator on \<open>data\<close>. \<^verbatim>\<open>verifyDag\<close> of dag/verify.ts is not
  among the sources and is a parameter: it reads the roots and the links, and throws or
  returns.
\<close>

definition stratifyCall ::
  "((nat \<times> 'l) list list \<Rightarrow> nat list \<Rightarrow> error + unit)
   \<Rightarrow> 'n id_operator \<Rightarrow> ('n, 'l) parentData_operator \<Rightarrow> 'n list
   \<Rightarrow> error + ('n, 'l) layout_dag" where
  "stratifyCall verifyDag idOp parentDataOp data =
     (if length data = 0 then Inl CantStratifyEmpty
      else bindE (fill_mapping idOp parentDataOp 0 data []) (\<lambda>mapping.
           bindE (foldE (link_node mapping) mapping (replicate (length data) [], []))
             (\<lambda>(children, roots).
           bindE (verifyDag children roots) (\<lambda>_.
             Inr \<lparr>node_data = data, dataChildren = children,
                  handle = (if length roots > 1 then LayoutDagRoot roots
                            else (case roots of [] \<Rightarrow> Undefined
                                  | r # _ \<Rightarrow> LayoutDagNode r))\<rparr>))))"

text \<open>The operator's accessors and their setters.\<close>

record ('n, 'l) stratify_options =
  idOp :: "'n id_operator"
  parentIdsOp :: "'n parentIds_operator"
  parentDataOp :: "('n, 'l) parentData_operator"

definition wrapParentIds :: "'n parentIds_operator \<Rightarrow> ('n, unit) parentData_operator" where
  "wrapParentIds parentIds d i =
     bindE (parentIds d i) (\<lambda>ids.
       Inr (Some (map (\<lambda>ident. (ident, ())) (case ids of None \<Rightarrow> [] | Some p \<Rightarrow> p))))"

definition wrapParentData :: "('n, 'l) parentData_operator \<Rightarrow> 'n parentIds_operator" where
  "wrapParentData parentData d i =
     bindE (parentData d i) (\<lambda>pd.
       Inr (Some (map fst (case pd of None \<Rightarrow> [] | Some p \<Rightarrow> p))))"

definition id_get :: "('n, 'l) stratify_options \<Rightarrow> 'n id_operator" where
  "id_get options = idOp options"

definition parentData_get :: "('n, 'l) stratify_options \<Rightarrow> ('n, 'l) parentData_operator" where
  "parentData_get options = parentDataOp options"

definition parentIds_get :: "('n, 'l) stratify_options \<Rightarrow> 'n parentIds_operator" where
  "parentIds_get options = parentIdsOp options"

definition id_set ::
  "'n id_operator \<Rightarrow> ('n, 'l) stratify_options \<Rightarrow> ('n, 'l) stratify_options" where
  "id_set idGet options =
     \<lparr>idOp = idGet, parentIdsOp = parentIdsOp options, parentDataOp = parentDataOp options\<rparr>"

definition parentData_set ::
  "('n, 'k) parentData_operator \<Rightarrow> ('n, 'l) stratify_options \<Rightarrow> ('n, 'k) stratify_options" where
  "parentData_set pd options =
     \<lparr>idOp = idOp options, parentIdsOp = wrapParentData pd, parentDataOp = pd\<rparr>"

definition parentIds_set ::
  "'n parentIds_operator \<Rightarrow> ('n, 'l) stratify_options \<Rightarrow> ('n, unit) stratify_options" where
  "parentIds_set ids options =
     \<lparr>idOp = idOp options, parentIdsOp = ids, parentDataOp = wrapParentIds ids\<rparr>"

text \<open>
  The default accessors read the fields \<^verbatim>\<open>id\<close> and \<^verbatim>\<open>parentIds\<close> of a datum; a datum
  without a string \<^verbatim>\<open>id\<close> makes \<^verbatim>\<open>defaultId\<close> throw.
\<close>

record datum =
  datum_id :: "string option"
  datum_parentIds :: "string list option"

definition defaultId :: "datum id_operator" where
  "defaultId d i = (case datum_id d of None \<Rightarrow> Inl AccessorError | Some s \<Rightarrow> Inr s)"

definition defaultParentIds :: "datum parentIds_operator" where
  "defaultParentIds d i = Inr (datum_parentIds d)"

definition stratify :: "'a list \<Rightarrow> error + (datum, unit) stratify_options" where
  "stratify args =
     (if args \<noteq> [] then Inl GotArguments
      else Inr \<lparr>idOp = defaultId, parentIdsOp = defaultParentIds,
                parentDataOp = wrapParentIds defaultParentIds\<rparr>)"

section \<open>Operators as objects: the other setters\<close>

text \<open>
  The getters and setters of a sugiyama operator and of a quad operator that are not
  above. \<^verbatim>\<open>vertical\<close> throws like \<^verbatim>\<open>curve\<close>, when a weight is negative.
\<close>

definition layering_getter :: "sugiyama_options store \<Rightarrow> nat \<Rightarrow> layering_operator option" where
  "layering_getter = call_getter layering_get"

definition layering_setter ::
  "layering_operator \<Rightarrow> sugiyama_options store \<Rightarrow> nat
   \<Rightarrow> (error + nat) \<times> sugiyama_options store" where
  "layering_setter layer = call_setter (\<lambda>options. Inr (layering_set layer options))"

definition decross_getter :: "sugiyama_options store \<Rightarrow> nat \<Rightarrow> decross_operator option" where
  "decross_getter = call_getter decross_get"

definition decross_setter ::
  "decross_operator \<Rightarrow> sugiyama_options store \<Rightarrow> nat
   \<Rightarrow> (error + nat) \<times> sugiyama_options store" where
  "decross_setter dec = call_setter (\<lambda>options. Inr (decross_set dec options))"

definition coord_getter :: "sugiyama_options store \<Rightarrow> nat \<Rightarrow> coord_operator option" where
  "coord_getter = call_getter coord_get"

definition coord_setter ::
  "coord_operator \<Rightarrow> sugiyama_options store \<Rightarrow> nat
   \<Rightarrow> (error + nat) \<times> sugiyama_options store" where
  "coord_setter crd = call_setter (\<lambda>options. Inr (coord_set crd options))"

definition nodeSize_getter ::
  "sugiyama_options store \<Rightarrow> nat \<Rightarrow> (nat option \<Rightarrow> real \<times> real) option option" where
  "nodeSize_getter = call_getter nodeSize_get"

definition nodeSize_setter ::
  "(nat option \<Rightarrow> real \<times> real) \<Rightarrow> sugiyama_options store \<Rightarrow> nat
   \<Rightarrow> (error + nat) \<times> sugiyama_options store" where
  "nodeSize_setter sz = call_setter (\<lambda>options. Inr (nodeSize_set sz options))"

definition sugiNodeSize_getter ::
  "sugiyama_options store \<Rightarrow> nat \<Rightarrow> (sugi_data \<Rightarrow> real \<times> real) option" where
  "sugiNodeSize_getter = call_getter sugiNodeSize_get"

definition sugiNodeSize_setter ::
  "(sugi_data \<Rightarrow> real \<times> real) \<Rightarrow> sugiyama_options store \<Rightarrow> nat
   \<Rightarrow> (error + nat) \<times> sugiyama_options store" where
  "sugiNodeSize_setter sz = call_setter (\<lambda>options. Inr (sugiNodeSize_set sz options))"

definition vertical_getter :: "quad_options store \<Rightarrow> nat \<Rightarrow> (real \<times> real) option option" where
  "vertical_getter = call_getter vertical_get"

definition vertical_setter ::
  "real \<times> real \<Rightarrow> quad_options store \<Rightarrow> nat \<Rightarrow> (error + nat) \<times> quad_options store" where
  "vertical_setter val = call_setter (vertical_set val)"

definition vertWeak_getter :: "quad_options store \<Rightarrow> nat \<Rightarrow> (nat \<times> nat) accessor option" where
  "vertWeak_getter = call_getter vertWeak_get"

definition vertWeak_setter ::
  "(nat \<times> nat) accessor \<Rightarrow> quad_options store \<Rightarrow> nat
   \<Rightarrow> (error + nat) \<times> quad_options store" where
  "vertWeak_setter val = call_setter (\<lambda>options. Inr (vertWeak_set val options))"

definition vertStrong_getter :: "quad_options store \<Rightarrow> nat \<Rightarrow> (nat \<times> nat) accessor option" where
  "vertStrong_getter = call_getter vertStrong_get"

definition vertStrong_setter ::
  "(nat \<times> nat) accessor \<Rightarrow> quad_options store \<Rightarrow> nat
   \<Rightarrow> (error + nat) \<times> quad_options store" where
  "vertStrong_setter val = call_setter (\<lambda>options. Inr (vertStrong_set val options))"

definition linkCurve_getter :: "quad_options store \<Rightarrow> nat \<Rightarrow> (nat \<times> nat) accessor option" where
  "linkCurve_getter = call_getter linkCurve_get"

definition linkCurve_setter ::
  "(nat \<times> nat) accessor \<Rightarrow> quad_options store \<Rightarrow> nat
   \<Rightarrow> (error + nat) \<times> quad_options store" where
  "linkCurve_setter val = call_setter (\<lambda>options. Inr (linkCurve_set val options))"

definition nodeCurve_getter :: "quad_options store \<Rightarrow> nat \<Rightarrow> nat accessor option" where
  "nodeCurve_getter = call_getter nodeCurve_get"

definition nodeCurve_setter ::
  "nat accessor \<Rightarrow> quad_options store \<Rightarrow> nat
   \<Rightarrow> (error + nat) \<times> quad_options store" where
  "nodeCurve_setter val = call_setter (\<lambda>options. Inr (nodeCurve_set val options))"

text \<open>
  The setters of a stratify operator. \<^verbatim>\<open>id\<close> keeps the type of the operator.
  \<^verbatim>\<open>parentData\<close> and \<^verbatim>\<open>parentIds\<close> return an operator for another type of link data, so
  the store they work on holds operators of two types: \<open>Inl\<close> marks those of the type of
  the operator called, \<open>Inr\<close> those of the type of the operator returned.
\<close>

definition id_getter :: "('n, 'l) stratify_options store \<Rightarrow> nat \<Rightarrow> 'n id_operator option" where
  "id_getter = call_getter id_get"

definition id_setter ::
  "'n id_operator \<Rightarrow> ('n, 'l) stratify_options store \<Rightarrow> nat
   \<Rightarrow> (error + nat) \<times> ('n, 'l) stratify_options store" where
  "id_setter idGet = call_setter (\<lambda>options. Inr (id_set idGet options))"

definition left_object :: "'a + 'b \<Rightarrow> 'a option" where
  "left_object obj = (case obj of Inl a \<Rightarrow> Some a | Inr b \<Rightarrow> None)"

definition right_object :: "'a + 'b \<Rightarrow> 'b option" where
  "right_object obj = (case obj of Inl a \<Rightarrow> None | Inr b \<Rightarrow> Some b)"

definition call_getter_as :: "('s \<Rightarrow> 'o option) \<Rightarrow> ('o \<Rightarrow> 'v) \<Rightarrow> 's store \<Rightarrow> nat \<Rightarrow> 'v option" where
  "call_getter_as as get st r =
     (case options_at st r of None \<Rightarrow> None | Some obj \<Rightarrow> map_option get (as obj))"

definition call_setter_as ::
  "('s \<Rightarrow> 'o option) \<Rightarrow> ('p \<Rightarrow> 's) \<Rightarrow> ('o \<Rightarrow> error + 'p) \<Rightarrow> 's store \<Rightarrow> nat
   \<Rightarrow> (error + nat) \<times> 's store" where
  "call_setter_as as mk new_options st r =
     (case options_at st r of
        None \<Rightarrow> (Inl TypeError, st)
      | Some obj \<Rightarrow>
          (case as obj of
             None \<Rightarrow> (Inl TypeError, st)
           | Some options \<Rightarrow>
               (case new_options options of
                  Inl e \<Rightarrow> (Inl e, st)
                | Inr options' \<Rightarrow>
                    (case buildOperator (mk options') st of (r', st') \<Rightarrow> (Inr r', st')))))"

definition parentData_setter ::
  "('n, 'k) parentData_operator
   \<Rightarrow> (('n, 'l) stratify_options + ('n, 'k) stratify_options) store \<Rightarrow> nat
   \<Rightarrow> (error + nat) \<times> (('n, 'l) stratify_options + ('n, 'k) stratify_options) store" where
  "parentData_setter pd =
     call_setter_as left_object Inr (\<lambda>options. Inr (parentData_set pd options))"

definition parentIds_setter ::
  "'n parentIds_operator
   \<Rightarrow> (('n, 'l) stratify_options + ('n, unit) stratify_options) store \<Rightarrow> nat
   \<Rightarrow> (error + nat) \<times> (('n, 'l) stratify_options + ('n, unit) stratify_options) store" where
  "parentIds_setter ids =
     call_setter_as left_object Inr (\<lambda>options. Inr (parentIds_set ids options))"

text \<open>
  What a call of a setter that returns does: the result \<open>r'\<close> is an operator other than
  the operator \<open>r\<close> called, the getter of \<open>r'\<close> returns the new value \<open>v\<close>, and the
  options of \<open>r\<close> and what its getter returns are what they were before the call.
\<close>

definition returns_new_operator ::
  "('o store \<Rightarrow> nat \<Rightarrow> 'v option) \<Rightarrow> 'v \<Rightarrow> 'o store \<Rightarrow> nat \<Rightarrow> (error + nat) \<times> 'o store \<Rightarrow> bool" where
  "returns_new_operator getter v st r result =
     (case result of (res, st') \<Rightarrow>
        (case res of
           Inl e \<Rightarrow> False
         | Inr r' \<Rightarrow> r' \<noteq> r \<and> getter st' r' = Some v
                     \<and> options_at st' r = options_at st r
                     \<and> getter st' r = getter st r))"

text \<open>
  The options of the operators \<^verbatim>\<open>quad()\<close> and \<^verbatim>\<open>stratify()\<close> build, and options of a
  sugiyama operator with longest path layering.
\<close>

definition quad_defaults :: quad_options where
  "quad_defaults =
     \<lparr>vertWeak = ConstAccessor 1, vertStrong = ConstAccessor 0,
      linkCurve = ConstAccessor 1, nodeCurve = ConstAccessor 0, quad_comp = 1\<rparr>"

definition sugiyama_example :: sugiyama_options where
  "sugiyama_example =
     \<lparr>layering = LayeringLongestPath \<lparr>topDown = True\<rparr>, decross = DecrossTwoLayer,
      coord = CoordSimplex, size_wh = None, nodeSize = Some defaultNodeSize,
      sugiNodeSize = wrapNodeSizeAccessor defaultNodeSize\<rparr>"

definition stratify_defaults :: "(datum, unit) stratify_options" where
  "stratify_defaults =
     \<lparr>idOp = defaultId, parentIdsOp = defaultParentIds,
      parentDataOp = wrapParentIds defaultParentIds\<rparr>"

section \<open>Steps that may throw\<close>

lemma bindE_Inr: "bindE r f = Inr b \<longleftrightarrow> (\<exists>a. r = Inr a \<and> f a = Inr b)"
  by (cases r) (auto simp: bindE_def)

lemma foldE_Inr_each:
  "foldE f xs s = Inr s' \<Longrightarrow> x \<in> set xs \<Longrightarrow> \<exists>s1 s2. f x s1 = Inr s2"
proof (induction xs arbitrary: s)
  case Nil
  then show ?case by simp
next
  case (Cons y ys)
  from Cons.prems(1) obtain s1 where y: "f y s = Inr s1" and rest: "foldE f ys s1 = Inr s'"
    by (auto simp: bindE_Inr)
  show ?case
  proof (cases "x = y")
    case True
    with y show ?thesis by blast
  next
    case False
    with Cons.prems(2) have "x \<in> set ys" by simp
    from Cons.IH [OF rest this] show ?thesis .
  qed
qed

lemma foldE_invariant:
  assumes "\<And>x s. x \<in> set xs \<Longrightarrow> P s \<Longrightarrow> \<exists>s'. f x s = Inr s' \<and> P s'" and "P s"
  shows "\<exists>s'. foldE f xs s = Inr s' \<and> P s'"
  using assms
proof (induction xs arbitrary: s)
  case Nil
  then show ?case by simp
next
  case (Cons x xs)
  from Cons.prems(1) [of x s] Cons.prems(2) obtain s1 where s1: "f x s = Inr s1" "P s1"
    by auto
  have "\<exists>s'. foldE f xs s1 = Inr s' \<and> P s'"
    by (rule Cons.IH) (use Cons.prems(1) s1 in auto)
  with s1 show ?case by (simp add: bindE_def)
qed

section \<open>The size gate of the optimal decrossing\<close>





section \<open>The defaults of the sugiyama operator\<close>

text \<open>
  Claim C1 says the operator built by \<^verbatim>\<open>sugiyama()\<close> assigns coordinates with the
  quadratic operator. The constructor passes \<^verbatim>\<open>coordSimplex()\<close>: the default coord
  operator is the simplex one, and no quad operator.
\<close>

theorem sugiyama_default_coord:
  "\<exists>options. sugiyama ([] :: unit list) = Inr options
      \<and> coord_get options = CoordSimplex
      \<and> (\<forall>q. coord_get options \<noteq> CoordQuad q)"
  by (simp add: sugiyama_def simplex_def bindE_def coord_get_def)

text \<open>
  Claim C2 says the default node size is (1, 1) for a node and (0, 0) for a dummy node.
  \<^verbatim>\<open>defaultNodeSize\<close> gives (1, 1) for a node and (0, 1) for \<^verbatim>\<open>undefined\<close>, so the
  wrapped accessor of the default operator gives every dummy node height 1.
\<close>

theorem defaultNodeSize_dummy:
  "defaultNodeSize None = (0, 1)
   \<and> defaultNodeSize (Some n) = (1, 1)
   \<and> wrapNodeSizeAccessor defaultNodeSize (SugiDummy l) = (0, 1)
   \<and> wrapNodeSizeAccessor defaultNodeSize (SugiReal n) = (1, 1)
   \<and> (\<exists>options. sugiyama ([] :: unit list) = Inr options
        \<and> nodeSize_get options = Some defaultNodeSize
        \<and> sugiNodeSize_get options (SugiDummy l) = (0, 1))"
  by (simp add: defaultNodeSize_def wrapNodeSizeAccessor_def sugiyama_def simplex_def bindE_def
      nodeSize_get_def sugiNodeSize_get_def)

section \<open>Stratify\<close>

text \<open>
  Claim C10: called on an empty array of data, a stratify operator throws ``can't
  stratify empty data'', whatever its accessors; no dag is built from no data.
\<close>

theorem stratify_empty_data:
  "stratifyCall verify idf pdf [] = Inl CantStratifyEmpty"
  by (simp add: stratifyCall_def)

section \<open>The curve weights of the quad operator\<close>

text \<open>
  Claim C7: for non-negative \<open>a\<close> and \<open>b\<close>, the setter \<^verbatim>\<open>curve([a, b])\<close> builds an
  operator whose \<^verbatim>\<open>nodeCurve\<close> is the constant accessor of \<open>a\<close> and whose \<^verbatim>\<open>linkCurve\<close>
  is the constant accessor of \<open>b\<close>, and the getter \<^verbatim>\<open>curve()\<close> of that operator returns
  \<open>[a, b]\<close>.
\<close>

theorem curve_roundtrip:
  assumes "0 \<le> a" and "0 \<le> b"
  shows "\<exists>opts'. curve_set (a, b) opts = Inr opts'
           \<and> nodeCurve opts' = ConstAccessor a \<and> linkCurve opts' = ConstAccessor b
           \<and> (\<forall>n. call_accessor (nodeCurve opts') n = a)
           \<and> (\<forall>l. call_accessor (linkCurve opts') l = b)
           \<and> curve_get opts' = Some (a, b)"
  using assms by (simp add: curve_set_def createConstAccessor_def bindE_def curve_get_def)

theorem curve_roundtrip_witness:
  "(0::real) \<le> 2 \<and> (0::real) \<le> 3
   \<and> (\<exists>opts'. curve_set (2, 3)
          \<lparr>vertWeak = ConstAccessor 1, vertStrong = ConstAccessor 0,
           linkCurve = ConstAccessor 1, nodeCurve = ConstAccessor 0, quad_comp = 1\<rparr> = Inr opts'
        \<and> curve_get opts' = Some (2, 3))"
  using curve_roundtrip [of 2 3 "\<lparr>vertWeak = ConstAccessor 1, vertStrong = ConstAccessor 0,
           linkCurve = ConstAccessor 1, nodeCurve = ConstAccessor 0, quad_comp = 1\<rparr>"]
  by auto

section \<open>Setters build a new operator\<close>

text \<open>
  A setter that does not throw appends one operator to the store and returns it; the
  operator it was called on, like every other, keeps its options. A setter that throws
  leaves the store as it was.
\<close>

lemma call_setter_frame:
  assumes "options_at st r = Some options" and "new_options options = Inr options'"
  shows "call_setter new_options st r = (Inr (length st), st @ [options'])"
    and "options_at (st @ [options']) r = Some options"
    and "options_at (st @ [options']) (length st) = Some options'"
    and "length st \<noteq> r"
  using assms
  by (auto simp: call_setter_def buildOperator_def options_at_def nth_append split: if_splits)

lemma call_setter_throws:
  assumes "options_at st r = Some options" and "new_options options = Inl e"
  shows "call_setter new_options st r = (Inl e, st)"
  using assms by (simp add: call_setter_def)

lemma call_setter_others:
  assumes "call_setter new_options st r = (res, st')" and "q < length st"
  shows "options_at st' q = options_at st q"
  using assms
  by (auto simp: call_setter_def buildOperator_def options_at_def nth_append
      split: option.splits sum.splits)

text \<open>The options the constructors \<^verbatim>\<open>quad()\<close> and \<^verbatim>\<open>stratify()\<close> pass to \<^verbatim>\<open>buildOperator\<close>.\<close>

lemma default_options:
  "quad ([] :: unit list) = Inr quad_defaults"
  "stratify ([] :: unit list) = Inr stratify_defaults"
  by (simp_all add: quad_def quad_defaults_def createConstAccessor_def bindE_def
      stratify_def stratify_defaults_def)

text \<open>
  Claim C8, as stated, fails: not every call of a setter returns an operator. On the
  operator \<^verbatim>\<open>quad()\<close> builds, \<^verbatim>\<open>component(0)\<close> and \<^verbatim>\<open>curve([-1, 3])\<close> throw; no operator
  is built and the store is as it was.
\<close>

theorem setters_that_throw_counterexample:
  "component_setter 0 [quad_defaults] 0 = (Inl NonPositiveComponent, [quad_defaults])
   \<and> curve_setter (- 1, 3) [quad_defaults] 0 = (Inl NegativeWeights, [quad_defaults])"
  by (simp add: component_setter_def curve_setter_def call_setter_def options_at_def
      component_set_def curve_set_def)

lemma call_setter_returns_new:
  assumes "options_at st r = Some options" and "new_options options = Inr options'"
    and "get options' = v"
  shows "returns_new_operator (call_getter get) v st r (call_setter new_options st r)"
  using call_setter_frame [OF assms(1), of new_options options'] assms
  by (simp add: returns_new_operator_def call_getter_def)

lemma call_setter_returns_new_total:
  assumes "options_at st r = Some options" and "get (f options) = v"
  shows "returns_new_operator (call_getter get) v st r
           (call_setter (\<lambda>options. Inr (f options)) st r)"
  using assms by (intro call_setter_returns_new) simp_all

lemma call_setter_as_left:
  assumes "options_at st r = Some (Inl options)"
  shows "call_setter_as left_object Inr (\<lambda>options. Inr (f options)) st r
           = (Inr (length st), st @ [Inr (f options)])
       \<and> length st \<noteq> r
       \<and> options_at (st @ [Inr (f options)]) r = Some (Inl options)
       \<and> call_getter_as right_object get (st @ [Inr (f options)]) (length st)
           = Some (get (f options))
       \<and> call_getter_as left_object get' (st @ [Inr (f options)]) r
           = call_getter_as left_object get' st r"
  using assms
  by (auto simp: call_setter_as_def call_getter_as_def left_object_def right_object_def
      buildOperator_def options_at_def nth_append split: if_splits)

text \<open>
  Claim C8, amended, for every setter of the sources: \<^verbatim>\<open>layering\<close>, \<^verbatim>\<open>decross\<close>, \<^verbatim>\<open>coord\<close>,
  \<^verbatim>\<open>size\<close>, \<^verbatim>\<open>nodeSize\<close> and \<^verbatim>\<open>sugiNodeSize\<close> of a sugiyama operator, \<^verbatim>\<open>rank\<close> and
  \<^verbatim>\<open>group\<close> of a simplex layering operator, \<^verbatim>\<open>large\<close> of an opt decrossing operator,
  \<^verbatim>\<open>topDown\<close> of a longest path operator, \<^verbatim>\<open>vertical\<close>, \<^verbatim>\<open>vertWeak\<close>, \<^verbatim>\<open>vertStrong\<close>,
  \<^verbatim>\<open>curve\<close>, \<^verbatim>\<open>linkCurve\<close>, \<^verbatim>\<open>nodeCurve\<close> and \<^verbatim>\<open>component\<close> of a quad operator, and
  \<^verbatim>\<open>id\<close>, \<^verbatim>\<open>parentData\<close> and \<^verbatim>\<open>parentIds\<close> of a stratify operator. A call that does not
  throw returns an operator other than the one called, whose getter returns the new
  value, while the options of the operator called and what its getter returns are what
  they were. \<^verbatim>\<open>vertical\<close> and \<^verbatim>\<open>curve\<close> throw exactly when a weight is negative and
  \<^verbatim>\<open>component\<close> exactly when the weight is not positive; then no operator is returned
  and every operator is as it was. No other setter throws.
\<close>

theorem every_setter_builds_new_operator:
  assumes "options_at st1 r1 = Some o1"
      and "options_at st2 r2 = Some o2"
      and "options_at st3 r3 = Some o3"
      and "options_at st4 r4 = Some o4"
      and "options_at st5 r5 = Some o5"
      and "options_at st6 r6 = Some o6"
      and "options_at st7 r7 = Some (Inl o7)"
      and "options_at st8 r8 = Some (Inl o8)"
  shows "returns_new_operator layering_getter layer st1 r1 (layering_setter layer st1 r1)
       \<and> returns_new_operator decross_getter dec st1 r1 (decross_setter dec st1 r1)
       \<and> returns_new_operator coord_getter crd st1 r1 (coord_setter crd st1 r1)
       \<and> returns_new_operator size_getter sz st1 r1 (size_setter sz st1 r1)
       \<and> returns_new_operator nodeSize_getter (Some ns) st1 r1 (nodeSize_setter ns st1 r1)
       \<and> returns_new_operator sugiNodeSize_getter sns st1 r1 (sugiNodeSize_setter sns st1 r1)
       \<and> returns_new_operator rank_getter newRank st2 r2 (rank_setter newRank st2 r2)
       \<and> returns_new_operator group_getter newGroup st2 r2 (group_setter newGroup st2 r2)
       \<and> returns_new_operator large_getter val st3 r3 (large_setter val st3 r3)
       \<and> returns_new_operator topDown_getter td st4 r4 (topDown_setter td st4 r4)
       \<and> (if 0 \<le> fst vert \<and> 0 \<le> snd vert
           then returns_new_operator vertical_getter (Some vert) st5 r5
                  (vertical_setter vert st5 r5)
           else vertical_setter vert st5 r5 = (Inl NegativeWeights, st5))
       \<and> returns_new_operator vertWeak_getter vw st5 r5 (vertWeak_setter vw st5 r5)
       \<and> returns_new_operator vertStrong_getter vs st5 r5 (vertStrong_setter vs st5 r5)
       \<and> (if 0 \<le> fst crv \<and> 0 \<le> snd crv
           then returns_new_operator curve_getter (Some crv) st5 r5 (curve_setter crv st5 r5)
           else curve_setter crv st5 r5 = (Inl NegativeWeights, st5))
       \<and> returns_new_operator linkCurve_getter lc st5 r5 (linkCurve_setter lc st5 r5)
       \<and> returns_new_operator nodeCurve_getter nc st5 r5 (nodeCurve_setter nc st5 r5)
       \<and> (if 0 < w
           then returns_new_operator component_getter w st5 r5 (component_setter w st5 r5)
           else component_setter w st5 r5 = (Inl NonPositiveComponent, st5))
       \<and> returns_new_operator id_getter idGet st6 r6 (id_setter idGet st6 r6)
       \<and> (\<exists>r' st'. parentData_setter pd st7 r7 = (Inr r', st') \<and> r' \<noteq> r7
            \<and> call_getter_as right_object parentData_get st' r' = Some pd
            \<and> options_at st' r7 = Some (Inl o7)
            \<and> call_getter_as left_object parentData_get st' r7
                = call_getter_as left_object parentData_get st7 r7)
       \<and> (\<exists>r' st'. parentIds_setter ids st8 r8 = (Inr r', st') \<and> r' \<noteq> r8
            \<and> call_getter_as right_object parentIds_get st' r' = Some ids
            \<and> options_at st' r8 = Some (Inl o8)
            \<and> call_getter_as left_object parentIds_get st' r8
                = call_getter_as left_object parentIds_get st8 r8)"
proof (intro conjI)
  show "returns_new_operator layering_getter layer st1 r1 (layering_setter layer st1 r1)"
    unfolding layering_getter_def layering_setter_def
    by (rule call_setter_returns_new_total [OF assms(1)]) (simp add: layering_get_def layering_set_def)
  show "returns_new_operator decross_getter dec st1 r1 (decross_setter dec st1 r1)"
    unfolding decross_getter_def decross_setter_def
    by (rule call_setter_returns_new_total [OF assms(1)]) (simp add: decross_get_def decross_set_def)
  show "returns_new_operator coord_getter crd st1 r1 (coord_setter crd st1 r1)"
    unfolding coord_getter_def coord_setter_def
    by (rule call_setter_returns_new_total [OF assms(1)]) (simp add: coord_get_def coord_set_def)
  show "returns_new_operator size_getter sz st1 r1 (size_setter sz st1 r1)"
    unfolding size_getter_def size_setter_def
    by (rule call_setter_returns_new_total [OF assms(1)]) (simp add: size_get_def size_set_def)
  show "returns_new_operator nodeSize_getter (Some ns) st1 r1 (nodeSize_setter ns st1 r1)"
    unfolding nodeSize_getter_def nodeSize_setter_def
    by (rule call_setter_returns_new_total [OF assms(1)])
       (simp add: nodeSize_get_def nodeSize_set_def)
  show "returns_new_operator sugiNodeSize_getter sns st1 r1 (sugiNodeSize_setter sns st1 r1)"
    unfolding sugiNodeSize_getter_def sugiNodeSize_setter_def
    by (rule call_setter_returns_new_total [OF assms(1)])
       (simp add: sugiNodeSize_get_def sugiNodeSize_set_def)
  show "returns_new_operator rank_getter newRank st2 r2 (rank_setter newRank st2 r2)"
    unfolding rank_getter_def rank_setter_def
    by (rule call_setter_returns_new_total [OF assms(2)]) (simp add: rank_get_def rank_set_def)
  show "returns_new_operator group_getter newGroup st2 r2 (group_setter newGroup st2 r2)"
    unfolding group_getter_def group_setter_def
    by (rule call_setter_returns_new_total [OF assms(2)]) (simp add: group_get_def group_set_def)
  show "returns_new_operator large_getter val st3 r3 (large_setter val st3 r3)"
    unfolding large_getter_def large_setter_def
    by (rule call_setter_returns_new_total [OF assms(3)]) (simp add: large_get_def large_set_def)
  show "returns_new_operator topDown_getter td st4 r4 (topDown_setter td st4 r4)"
    unfolding topDown_getter_def topDown_setter_def
    by (rule call_setter_returns_new_total [OF assms(4)])
       (simp add: topDown_get_def topDown_set_def)
  show "if 0 \<le> fst vert \<and> 0 \<le> snd vert
        then returns_new_operator vertical_getter (Some vert) st5 r5
               (vertical_setter vert st5 r5)
        else vertical_setter vert st5 r5 = (Inl NegativeWeights, st5)"
  proof (cases "0 \<le> fst vert \<and> 0 \<le> snd vert")
    case True
    have "returns_new_operator (call_getter vertical_get) (Some vert) st5 r5
            (call_setter (vertical_set vert) st5 r5)"
      by (rule call_setter_returns_new [OF assms(5),
            where options' = "o5\<lparr>vertWeak := ConstAccessor (fst vert),
                                  vertStrong := ConstAccessor (snd vert)\<rparr>"])
         (use True in \<open>simp_all add: vertical_set_def vertical_get_def createConstAccessor_def
            bindE_def split_beta\<close>)
    with True show ?thesis by (simp add: vertical_getter_def vertical_setter_def)
  next
    case False
    then have "vertical_set vert o5 = Inl NegativeWeights"
      by (auto simp: vertical_set_def split_beta)
    from call_setter_throws [OF assms(5), of "vertical_set vert" NegativeWeights] this False
    show ?thesis by (auto simp: vertical_setter_def)
  qed
  show "returns_new_operator vertWeak_getter vw st5 r5 (vertWeak_setter vw st5 r5)"
    unfolding vertWeak_getter_def vertWeak_setter_def
    by (rule call_setter_returns_new_total [OF assms(5)])
       (simp add: vertWeak_get_def vertWeak_set_def)
  show "returns_new_operator vertStrong_getter vs st5 r5 (vertStrong_setter vs st5 r5)"
    unfolding vertStrong_getter_def vertStrong_setter_def
    by (rule call_setter_returns_new_total [OF assms(5)])
       (simp add: vertStrong_get_def vertStrong_set_def)
  show "if 0 \<le> fst crv \<and> 0 \<le> snd crv
        then returns_new_operator curve_getter (Some crv) st5 r5 (curve_setter crv st5 r5)
        else curve_setter crv st5 r5 = (Inl NegativeWeights, st5)"
  proof (cases "0 \<le> fst crv \<and> 0 \<le> snd crv")
    case True
    have "returns_new_operator (call_getter curve_get) (Some crv) st5 r5
            (call_setter (curve_set crv) st5 r5)"
      by (rule call_setter_returns_new [OF assms(5),
            where options' = "o5\<lparr>linkCurve := ConstAccessor (snd crv),
                                  nodeCurve := ConstAccessor (fst crv)\<rparr>"])
         (use True in \<open>simp_all add: curve_set_def curve_get_def createConstAccessor_def
            bindE_def split_beta\<close>)
    with True show ?thesis by (simp add: curve_getter_def curve_setter_def)
  next
    case False
    then have "curve_set crv o5 = Inl NegativeWeights"
      by (auto simp: curve_set_def split_beta)
    from call_setter_throws [OF assms(5), of "curve_set crv" NegativeWeights] this False
    show ?thesis by (auto simp: curve_setter_def)
  qed
  show "returns_new_operator linkCurve_getter lc st5 r5 (linkCurve_setter lc st5 r5)"
    unfolding linkCurve_getter_def linkCurve_setter_def
    by (rule call_setter_returns_new_total [OF assms(5)])
       (simp add: linkCurve_get_def linkCurve_set_def)
  show "returns_new_operator nodeCurve_getter nc st5 r5 (nodeCurve_setter nc st5 r5)"
    unfolding nodeCurve_getter_def nodeCurve_setter_def
    by (rule call_setter_returns_new_total [OF assms(5)])
       (simp add: nodeCurve_get_def nodeCurve_set_def)
  show "if 0 < w
        then returns_new_operator component_getter w st5 r5 (component_setter w st5 r5)
        else component_setter w st5 r5 = (Inl NonPositiveComponent, st5)"
  proof (cases "0 < w")
    case True
    have "returns_new_operator (call_getter component_get) w st5 r5
            (call_setter (component_set w) st5 r5)"
      by (rule call_setter_returns_new [OF assms(5), where options' = "o5\<lparr>quad_comp := w\<rparr>"])
         (use True in \<open>simp_all add: component_set_def component_get_def\<close>)
    with True show ?thesis by (simp add: component_getter_def component_setter_def)
  next
    case False
    then have "component_set w o5 = Inl NonPositiveComponent"
      by (simp add: component_set_def)
    from call_setter_throws [OF assms(5), of "component_set w" NonPositiveComponent] this False
    show ?thesis by (auto simp: component_setter_def)
  qed
  show "returns_new_operator id_getter idGet st6 r6 (id_setter idGet st6 r6)"
    unfolding id_getter_def id_setter_def
    by (rule call_setter_returns_new_total [OF assms(6)]) (simp add: id_get_def id_set_def)
  show "\<exists>r' st'. parentData_setter pd st7 r7 = (Inr r', st') \<and> r' \<noteq> r7
            \<and> call_getter_as right_object parentData_get st' r' = Some pd
            \<and> options_at st' r7 = Some (Inl o7)
            \<and> call_getter_as left_object parentData_get st' r7
                = call_getter_as left_object parentData_get st7 r7"
    using call_setter_as_left [OF assms(7), where f = "parentData_set pd"
        and get = parentData_get and get' = parentData_get]
    by (simp add: parentData_setter_def parentData_get_def parentData_set_def)
  show "\<exists>r' st'. parentIds_setter ids st8 r8 = (Inr r', st') \<and> r' \<noteq> r8
            \<and> call_getter_as right_object parentIds_get st' r' = Some ids
            \<and> options_at st' r8 = Some (Inl o8)
            \<and> call_getter_as left_object parentIds_get st' r8
                = call_getter_as left_object parentIds_get st8 r8"
    using call_setter_as_left [OF assms(8), where f = "parentIds_set ids"
        and get = parentIds_get and get' = parentIds_get]
    by (simp add: parentIds_setter_def parentIds_get_def parentIds_set_def)
qed

theorem every_setter_builds_new_operator_witness:
  "options_at [sugiyama_example] 0 = Some sugiyama_example
   \<and> options_at [\<lparr>rank = defaultAccessor, group_of = defaultAccessor\<rparr>] 0
       = Some \<lparr>rank = defaultAccessor, group_of = defaultAccessor\<rparr>
   \<and> options_at [\<lparr>opt_large = small\<rparr>] 0 = Some \<lparr>opt_large = small\<rparr>
   \<and> options_at [\<lparr>topDown = True\<rparr>] 0 = Some \<lparr>topDown = True\<rparr>
   \<and> options_at [quad_defaults] 0 = Some quad_defaults
   \<and> options_at [stratify_defaults] 0 = Some stratify_defaults
   \<and> options_at [Inl stratify_defaults
                   :: (datum, unit) stratify_options + (datum, unit) stratify_options] 0
       = Some (Inl stratify_defaults)
   \<and> returns_new_operator size_getter (Some (3, 4)) [sugiyama_example] 0
         (size_setter (Some (3, 4)) [sugiyama_example] 0)
   \<and> returns_new_operator rank_getter (\<lambda>node. Some 0)
         [\<lparr>rank = defaultAccessor, group_of = defaultAccessor\<rparr>] 0
         (rank_setter (\<lambda>node. Some 0) [\<lparr>rank = defaultAccessor, group_of = defaultAccessor\<rparr>] 0)
   \<and> returns_new_operator large_getter medium [\<lparr>opt_large = small\<rparr>] 0
         (large_setter medium [\<lparr>opt_large = small\<rparr>] 0)
   \<and> returns_new_operator topDown_getter False [\<lparr>topDown = True\<rparr>] 0
         (topDown_setter False [\<lparr>topDown = True\<rparr>] 0)
   \<and> returns_new_operator curve_getter (Some (2, 3)) [quad_defaults] 0
         (curve_setter (2, 3) [quad_defaults] 0)
   \<and> component_setter 0 [quad_defaults] 0 = (Inl NonPositiveComponent, [quad_defaults])
   \<and> returns_new_operator id_getter defaultId [stratify_defaults] 0
         (id_setter defaultId [stratify_defaults] 0)
   \<and> (\<exists>r' st'. parentIds_setter defaultParentIds
          [Inl stratify_defaults
             :: (datum, unit) stratify_options + (datum, unit) stratify_options] 0 = (Inr r', st')
        \<and> r' \<noteq> 0
        \<and> call_getter_as right_object parentIds_get st' r' = Some defaultParentIds
        \<and> options_at st' 0 = Some (Inl stratify_defaults))"
  (is "?H1 \<and> ?H2 \<and> ?H3 \<and> ?H4 \<and> ?H5 \<and> ?H6 \<and> ?H7
       \<and> ?C1 \<and> ?C2 \<and> ?C3 \<and> ?C4 \<and> ?C5 \<and> ?C6 \<and> ?C7 \<and> ?C8")
proof -
  have h1: ?H1 and h2: ?H2 and h3: ?H3 and h4: ?H4 and h5: ?H5 and h6: ?H6 and h7: ?H7
    by (simp_all add: options_at_def)
  note t = every_setter_builds_new_operator [OF h1 h2 h3 h4 h5 h6 h7 h7,
      where sz = "Some (3, 4)" and newRank = "\<lambda>node. Some 0" and val = medium and td = False
        and crv = "(2, 3)" and w = 0 and idGet = defaultId and ids = defaultParentIds]
  have c1: ?C1 using t by blast
  have c2: ?C2 using t by blast
  have c3: ?C3 using t by blast
  have c4: ?C4 using t by blast
  have "if 0 \<le> fst (2 :: real, 3 :: real) \<and> 0 \<le> snd (2 :: real, 3 :: real)
        then returns_new_operator curve_getter (Some (2, 3)) [quad_defaults] 0
               (curve_setter (2, 3) [quad_defaults] 0)
        else curve_setter (2, 3) [quad_defaults] 0 = (Inl NegativeWeights, [quad_defaults])"
    using t by blast
  then have c5: ?C5 by simp
  have "if (0 :: real) < 0
        then returns_new_operator component_getter 0 [quad_defaults] 0
               (component_setter 0 [quad_defaults] 0)
        else component_setter 0 [quad_defaults] 0 = (Inl NonPositiveComponent, [quad_defaults])"
    using t by blast
  then have c6: ?C6 by simp
  have c7: ?C7 using t by blast
  have c8: ?C8 using t by blast
  from h1 h2 h3 h4 h5 h6 h7 c1 c2 c3 c4 c5 c6 c7 c8 show ?thesis by blast
qed

section \<open>Stratify: duplicate ids and unknown parents\<close>

text \<open>
  When the first loop ends without throwing, the ids in the mapping are distinct, and the
  entry made for each datum holds the id its accessor gave, the datum's index as node and
  its parent data.
\<close>

lemma fill_mapping_Inr:
  assumes "fill_mapping idf pdf i ds m = Inr m'" and "distinct (map fst m)"
  shows "distinct (map fst m')
       \<and> length m' = length m + length ds
       \<and> take (length m) m' = m
       \<and> (\<forall>k<length ds. \<exists>pd. idf (ds ! k) (i + k) = Inr (fst (m' ! (length m + k)))
              \<and> pdf (ds ! k) (i + k) = Inr pd
              \<and> m' ! (length m + k)
                  = (fst (m' ! (length m + k)), i + k, case pd of None \<Rightarrow> [] | Some p \<Rightarrow> p))"
  using assms
proof (induction ds arbitrary: i m)
  case Nil
  then show ?case by simp
next
  case (Cons d ds)
  from Cons.prems(1) obtain raw ident pd where
    raw: "idf d i = Inr raw" and ident: "verifyId raw = Inr ident" and pd: "pdf d i = Inr pd"
    and fresh: "ident \<notin> set (map fst m)"
    and rest: "fill_mapping idf pdf (Suc i) ds
                 (m @ [(ident, i, case pd of None \<Rightarrow> [] | Some p \<Rightarrow> p)]) = Inr m'"
    by (auto simp: bindE_Inr Let_def split: if_splits)
  have same: "ident = raw"
    using ident by (simp add: verifyId_def split: if_splits)
  let ?m1 = "m @ [(ident, i, case pd of None \<Rightarrow> [] | Some p \<Rightarrow> p)]"
  have d1: "distinct (map fst ?m1)"
    using Cons.prems(2) fresh by simp
  note ih = Cons.IH [OF rest d1]
  have len: "length m' = length m + length (d # ds)"
    using ih by simp
  have tk: "take (Suc (length m)) m' = ?m1"
    using ih by simp
  have tk0: "take (length m) m' = m"
  proof -
    have "take (length m) m' = take (length m) (take (Suc (length m)) m')"
      by (simp add: min_def)
    then show ?thesis using tk by simp
  qed
  have at0: "m' ! length m = (ident, i, case pd of None \<Rightarrow> [] | Some p \<Rightarrow> p)"
  proof -
    have "m' ! length m = take (Suc (length m)) m' ! length m" by simp
    then show ?thesis using tk by (simp add: nth_append)
  qed
  have each: "\<exists>pd. idf ((d # ds) ! k) (i + k) = Inr (fst (m' ! (length m + k)))
              \<and> pdf ((d # ds) ! k) (i + k) = Inr pd
              \<and> m' ! (length m + k)
                  = (fst (m' ! (length m + k)), i + k, case pd of None \<Rightarrow> [] | Some p \<Rightarrow> p)"
    if k: "k < length (d # ds)" for k
  proof (cases k)
    case 0
    then show ?thesis using raw pd same at0 by simp
  next
    case (Suc j)
    with k have "j < length ds" by simp
    with ih obtain pd' where
      "idf (ds ! j) (Suc i + j) = Inr (fst (m' ! (length ?m1 + j)))"
      "pdf (ds ! j) (Suc i + j) = Inr pd'"
      "m' ! (length ?m1 + j)
         = (fst (m' ! (length ?m1 + j)), Suc i + j, case pd' of None \<Rightarrow> [] | Some p \<Rightarrow> p)"
      by blast
    then show ?thesis using Suc by simp
  qed
  show ?case using ih len tk0 each by blast
qed


lemma stratifyCall_Inr:
  assumes "stratifyCall verify idf pdf data = Inr g"
  shows "\<exists>m s. fill_mapping idf pdf 0 data [] = Inr m
              \<and> foldE (link_node m) m (replicate (length data) [], []) = Inr s"
  using assms by (auto simp: stratifyCall_def bindE_Inr split: if_splits)

lemma link_node_Inr:
  assumes "link_node m (ident, node, pdata) s = Inr s'" and "(pid, l) \<in> set pdata"
  shows "map_of m pid \<noteq> None"
proof -
  from assms(1) obtain ch ch' where "foldE (link_parent m node) pdata ch = Inr ch'"
    by (cases s) (auto simp: link_node_def bindE_Inr)
  from foldE_Inr_each [OF this assms(2)] show ?thesis
    by (auto simp: link_parent_def split: option.splits)
qed

text \<open>
  Claim C9: a stratify operator throws, and returns no dag, when the id accessor gives the
  same id for two data, and when the parent data of a datum name an id that the id
  accessor gives for no datum.
\<close>

theorem stratify_rejects:
  "((\<exists>i j x. i < j \<and> j < length data \<and> idf (data ! i) i = Inr x \<and> idf (data ! j) j = Inr x)
      \<longrightarrow> isl (stratifyCall verify idf pdf data))
   \<and> ((\<exists>k pd pid l. k < length data \<and> pdf (data ! k) k = Inr (Some pd) \<and> (pid, l) \<in> set pd
          \<and> (\<forall>i<length data. idf (data ! i) i \<noteq> Inr pid))
      \<longrightarrow> isl (stratifyCall verify idf pdf data))"
proof (intro conjI impI)
  assume "\<exists>i j x. i < j \<and> j < length data \<and> idf (data ! i) i = Inr x \<and> idf (data ! j) j = Inr x"
  then obtain i j x where ij: "i < j" "j < length data"
    and x: "idf (data ! i) i = Inr x" "idf (data ! j) j = Inr x" by blast
  show "isl (stratifyCall verify idf pdf data)"
  proof (rule ccontr)
    assume "\<not> isl (stratifyCall verify idf pdf data)"
    then obtain g where "stratifyCall verify idf pdf data = Inr g"
      by (cases "stratifyCall verify idf pdf data") auto
    from stratifyCall_Inr [OF this] obtain m where m: "fill_mapping idf pdf 0 data [] = Inr m"
      by blast
    from fill_mapping_Inr [OF m] have d: "distinct (map fst m)" and len: "length m = length data"
      and each: "\<forall>k<length data. idf (data ! k) k = Inr (fst (m ! k))"
      by auto
    from each ij x have "fst (m ! i) = x" "fst (m ! j) = x" by auto
    then have "map fst m ! i = map fst m ! j" using ij len by simp
    moreover have "i < length (map fst m)" "j < length (map fst m)" using ij len by simp_all
    ultimately have "i = j" using nth_eq_iff_index_eq [OF d] by blast
    with ij show False by simp
  qed
next
  assume "\<exists>k pd pid l. k < length data \<and> pdf (data ! k) k = Inr (Some pd) \<and> (pid, l) \<in> set pd
          \<and> (\<forall>i<length data. idf (data ! i) i \<noteq> Inr pid)"
  then obtain k pd pid l where k: "k < length data" and pd: "pdf (data ! k) k = Inr (Some pd)"
    and pid: "(pid, l) \<in> set pd" and unknown: "\<forall>i<length data. idf (data ! i) i \<noteq> Inr pid"
    by blast
  show "isl (stratifyCall verify idf pdf data)"
  proof (rule ccontr)
    assume "\<not> isl (stratifyCall verify idf pdf data)"
    then obtain g where "stratifyCall verify idf pdf data = Inr g"
      by (cases "stratifyCall verify idf pdf data") auto
    from stratifyCall_Inr [OF this] obtain m s where m: "fill_mapping idf pdf 0 data [] = Inr m"
      and s: "foldE (link_node m) m (replicate (length data) [], []) = Inr s"
      by blast
    from fill_mapping_Inr [OF m] have len: "length m = length data"
      and each: "\<forall>k<length data. \<exists>pd. idf (data ! k) k = Inr (fst (m ! k))
                   \<and> pdf (data ! k) k = Inr pd
                   \<and> m ! k = (fst (m ! k), k, case pd of None \<Rightarrow> [] | Some p \<Rightarrow> p)"
      by auto
    from each k pd have mk: "m ! k = (fst (m ! k), k, pd)" by fastforce
    have "m ! k \<in> set m" using k len by simp
    from foldE_Inr_each [OF s this] mk obtain s1 s2 where
      "link_node m (fst (m ! k), k, pd) s1 = Inr s2" by metis
    from link_node_Inr [OF this pid] obtain v where "map_of m pid = Some v" by blast
    then have "pid \<in> fst ` set m" by (metis map_of_SomeD fst_conv image_eqI)
    then obtain i where i: "i < length m" and "fst (m ! i) = pid"
      by (metis imageE in_set_conv_nth)
    with each len have "idf (data ! i) i = Inr pid" by auto
    with unknown i len show False by simp
  qed
qed

theorem stratify_rejects_witness:
  "(\<exists>i j x. i < j \<and> j < length [\<lparr>datum_id = Some ''a'', datum_parentIds = None\<rparr>,
                                  \<lparr>datum_id = Some ''a'', datum_parentIds = None\<rparr>]
       \<and> defaultId ([\<lparr>datum_id = Some ''a'', datum_parentIds = None\<rparr>,
                      \<lparr>datum_id = Some ''a'', datum_parentIds = None\<rparr>] ! i) i = Inr x
       \<and> defaultId ([\<lparr>datum_id = Some ''a'', datum_parentIds = None\<rparr>,
                      \<lparr>datum_id = Some ''a'', datum_parentIds = None\<rparr>] ! j) j = Inr x)
   \<and> isl (stratifyCall (\<lambda>children roots. Inr ()) defaultId (wrapParentIds defaultParentIds)
            [\<lparr>datum_id = Some ''a'', datum_parentIds = None\<rparr>,
             \<lparr>datum_id = Some ''a'', datum_parentIds = None\<rparr>])
   \<and> (\<exists>k pd pid l. k < length [\<lparr>datum_id = Some ''a'', datum_parentIds = Some [''z'']\<rparr>]
       \<and> wrapParentIds defaultParentIds
            ([\<lparr>datum_id = Some ''a'', datum_parentIds = Some [''z'']\<rparr>] ! k) k = Inr (Some pd)
       \<and> (pid, l) \<in> set pd
       \<and> (\<forall>i<length [\<lparr>datum_id = Some ''a'', datum_parentIds = Some [''z'']\<rparr>].
             defaultId ([\<lparr>datum_id = Some ''a'', datum_parentIds = Some [''z'']\<rparr>] ! i) i
               \<noteq> Inr pid))
   \<and> isl (stratifyCall (\<lambda>children roots. Inr ()) defaultId (wrapParentIds defaultParentIds)
            [\<lparr>datum_id = Some ''a'', datum_parentIds = Some [''z'']\<rparr>])"
  (is "?H1 \<and> ?C1 \<and> ?H2 \<and> ?C2")
proof -
  have h1: ?H1
    by (rule exI [of _ 0], rule exI [of _ 1], rule exI [of _ "''a''"])
       (simp add: defaultId_def)
  have h2: ?H2
    by (rule exI [of _ 0], rule exI [of _ "[(''z'', ())]"], rule exI [of _ "''z''"],
        rule exI [of _ "()"])
       (simp add: defaultId_def wrapParentIds_def defaultParentIds_def bindE_def)
  have ?C1
    using h1 stratify_rejects [where data = "[\<lparr>datum_id = Some ''a'', datum_parentIds = None\<rparr>,
             \<lparr>datum_id = Some ''a'', datum_parentIds = None\<rparr>]" and idf = defaultId
        and pdf = "wrapParentIds defaultParentIds" and verify = "\<lambda>children roots. Inr ()"]
    by blast
  moreover have ?C2
    using h2 stratify_rejects [where data = "[\<lparr>datum_id = Some ''a'', datum_parentIds = Some [''z'']\<rparr>]"
        and idf = defaultId and pdf = "wrapParentIds defaultParentIds"
        and verify = "\<lambda>children roots. Inr ()"]
    by blast
  ultimately show ?thesis using h1 h2 by blast
qed

text \<open>
  The default operator on two data with the id \<open>a\<close>, on a datum whose parent \<open>z\<close> is
  no datum, and on a parent with one child.
\<close>

lemma stratify_examples:
  "stratifyCall (\<lambda>children roots. Inr ()) defaultId (wrapParentIds defaultParentIds)
     [\<lparr>datum_id = Some ''a'', datum_parentIds = None\<rparr>,
      \<lparr>datum_id = Some ''a'', datum_parentIds = None\<rparr>] = Inl (DuplicateId ''a'')"
  "stratifyCall (\<lambda>children roots. Inr ()) defaultId (wrapParentIds defaultParentIds)
     [\<lparr>datum_id = Some ''a'', datum_parentIds = Some [''z'']\<rparr>] = Inl (MissingId ''z'')"
  "stratifyCall (\<lambda>children roots. Inr ()) defaultId (wrapParentIds defaultParentIds)
     [\<lparr>datum_id = Some ''a'', datum_parentIds = None\<rparr>,
      \<lparr>datum_id = Some ''b'', datum_parentIds = Some [''a'']\<rparr>]
   = Inr \<lparr>node_data = [\<lparr>datum_id = Some ''a'', datum_parentIds = None\<rparr>,
      \<lparr>datum_id = Some ''b'', datum_parentIds = Some [''a'']\<rparr>],
      dataChildren = [[(1, ())], []], handle = LayoutDagNode 0\<rparr>"
  by (simp_all add: stratifyCall_def bindE_def defaultId_def wrapParentIds_def
      defaultParentIds_def verifyId_def link_node_def link_parent_def)

section \<open>Longest path layering: roots and leaves\<close>

lemma getParentCounts_root: "is_root g node \<Longrightarrow> getParentCounts g node = []"
  by (auto simp: is_root_def getParentCounts_def list_all_iff filter_empty_conv)

lemma math_max0_Nil: "math_max0 [] = Some 0"
  by (simp add: math_max0_def)

lemma foldl_math_max_Some:
  "\<forall>v\<in>set vs. v \<noteq> None \<Longrightarrow> \<exists>h. foldl math_max (Some a) vs = Some h \<and> a \<le> h"
proof (induction vs arbitrary: a)
  case Nil
  then show ?case by simp
next
  case (Cons v vs)
  then obtain b where v: "v = Some b" by auto
  from Cons.prems have "\<forall>v\<in>set vs. v \<noteq> None" by simp
  from Cons.IH [OF this, of "max a b"] obtain h where
    "foldl math_max (Some (max a b)) vs = Some h" "max a b \<le> h" by blast
  moreover have "math_max (Some a) v = Some (max a b)"
    using v by (simp add: math_max_def)
  ultimately show ?case by auto
qed

lemma math_max0_Some:
  "\<forall>v\<in>set vs. v \<noteq> None \<Longrightarrow> \<exists>h. math_max0 vs = Some h \<and> 0 \<le> h"
  unfolding math_max0_def by (rule foldl_math_max_Some)

lemma topDown_root:
  assumes "getParentCounts g node = []"
    and "val node = Some 0 \<or> node \<in> set ord"
  shows "fold (topDown_step g) ord val node = Some 0"
  using assms(2)
proof (induction ord arbitrary: val)
  case Nil
  then show ?case by simp
next
  case (Cons x xs)
  have "topDown_step g x val node = Some 0 \<or> node \<in> set xs"
    using Cons.prems assms(1) by (auto simp: topDown_step_def math_max0_Nil)
  from Cons.IH [of "topDown_step g x val", OF this] show ?case by simp
qed

lemma bottomUp_leaf:
  assumes "ichildrenCounts g node = []"
    and "fst s node = Some 0 \<or> node \<in> set ord"
  shows "fst (fold (bottomUp_step g) ord s) node = Some 0"
  using assms(2)
proof (induction ord arbitrary: s)
  case Nil
  then show ?case by simp
next
  case (Cons x xs)
  have "fst (bottomUp_step g x s) node = Some 0 \<or> node \<in> set xs"
    using Cons.prems assms(1)
    by (cases s) (auto simp: bottomUp_step_def math_max0_Nil Let_def)
  from Cons.IH [of "bottomUp_step g x s", OF this] show ?case by simp
qed

text \<open>
  Bottom up, when every node comes after its children: every value read is a number, the
  heights are between 0 and \<^verbatim>\<open>maxHeight\<close>.
\<close>

lemma bottomUp_heights:
  assumes "children_first g seen ord"
    and "\<forall>m\<in>set seen. \<exists>h. val m = Some h \<and> 0 \<le> h \<and> h \<le> M"
    and "0 \<le> M"
  shows "\<exists>val' M'. fold (bottomUp_step g) ord (val, Some M) = (val', Some M') \<and> 0 \<le> M'
           \<and> (\<forall>m\<in>set seen \<union> set ord. \<exists>h. val' m = Some h \<and> 0 \<le> h \<and> h \<le> M')"
  using assms
proof (induction ord arbitrary: seen val M)
  case Nil
  then show ?case by auto
next
  case (Cons x xs)
  let ?vs = "map (\<lambda>(child, count). plus_span (val child) count) (ichildrenCounts g x)"
  from Cons.prems(1) have kids: "\<forall>(child, count)\<in>set (ichildrenCounts g x). child \<in> set seen"
    and rest: "children_first g (x # seen) xs"
    by (auto simp: list_all_iff)
  have "\<forall>v\<in>set ?vs. v \<noteq> None"
    using kids Cons.prems(2) by (fastforce simp: plus_span_def)
  from math_max0_Some [OF this] obtain h where h: "math_max0 ?vs = Some h" "0 \<le> h" by blast
  have step: "bottomUp_step g x (val, Some M) = (val(x := Some h), Some (max M h))"
    using h by (simp add: bottomUp_step_def math_max_def)
  have inv: "\<forall>m\<in>set (x # seen). \<exists>k. (val(x := Some h)) m = Some k \<and> 0 \<le> k \<and> k \<le> max M h"
    using Cons.prems(2) h by fastforce
  have "0 \<le> max M h" using h by simp
  from Cons.IH [OF rest inv this] obtain val' M' where
    "fold (bottomUp_step g) xs (val(x := Some h), Some (max M h)) = (val', Some M')"
    "0 \<le> M'" "\<forall>m\<in>set (x # seen) \<union> set xs. \<exists>k. val' m = Some k \<and> 0 \<le> k \<and> k \<le> M'"
    by blast
  then show ?case using step by auto
qed

lemma flip_fold:
  "distinct ns \<Longrightarrow>
     fold (flip_step mh) ns val m = (if m \<in> set ns then minus_num mh (val m) else val m)"
  by (induction ns arbitrary: val) (auto simp: flip_step_def)

text \<open>
  \<^verbatim>\<open>Math.max(0, ...)\<close> that is a number bounds its arguments and, when there are
  arguments and none is negative, is one of them.
\<close>

lemma foldl_math_max_None: "foldl math_max None vs = None"
  by (induction vs) (simp_all add: math_max_def)

lemma foldl_math_max_bounds:
  "foldl math_max (Some a) vs = Some h \<Longrightarrow>
     a \<le> h \<and> (\<forall>v\<in>set vs. \<exists>b. v = Some b \<and> b \<le> h) \<and> (h = a \<or> Some h \<in> set vs)"
proof (induction vs arbitrary: a)
  case Nil
  then show ?case by simp
next
  case (Cons v vs)
  show ?case
  proof (cases v)
    case None
    then have "foldl math_max (Some a) (v # vs) = None"
      by (simp add: math_max_def foldl_math_max_None)
    with Cons.prems show ?thesis by simp
  next
    case (Some b)
    then have "math_max (Some a) v = Some (max a b)"
      by (simp add: math_max_def)
    then have "foldl math_max (Some (max a b)) vs = Some h"
      using Cons.prems by simp
    from Cons.IH [OF this] have "max a b \<le> h" "\<forall>v\<in>set vs. \<exists>b. v = Some b \<and> b \<le> h"
      "h = max a b \<or> Some h \<in> set vs" by auto
    then show ?thesis using Some by (auto simp: max_def split: if_splits)
  qed
qed

lemma math_max0_bounds:
  "math_max0 vs = Some h \<Longrightarrow>
     0 \<le> h \<and> (\<forall>v\<in>set vs. \<exists>b. v = Some b \<and> b \<le> h) \<and> (h = 0 \<or> Some h \<in> set vs)"
  unfolding math_max0_def by (rule foldl_math_max_bounds)

lemma math_max0_attained:
  assumes "math_max0 vs = Some h" and "vs \<noteq> []" and "\<forall>v\<in>set vs. \<forall>b. v = Some b \<longrightarrow> 0 \<le> b"
  shows "Some h \<in> set vs"
proof -
  from math_max0_bounds [OF assms(1)] have le: "\<forall>v\<in>set vs. \<exists>b. v = Some b \<and> b \<le> h"
    and alt: "h = 0 \<or> Some h \<in> set vs" by auto
  show ?thesis
  proof (cases "h = 0")
    case True
    from assms(2) obtain v where v: "v \<in> set vs" by (cases vs) auto
    with le obtain b where b: "v = Some b" "b \<le> h" by blast
    with assms(3) v have "0 \<le> b" by blast
    with b True have "v = Some h" by simp
    with v show ?thesis by simp
  next
    case False
    with alt show ?thesis by simp
  qed
qed

lemma getParentCounts_iff:
  "(par, count) \<in> set (getParentCounts g node)
     \<longleftrightarrow> par < length g \<and> (node, count) \<in> set (ichildrenCounts g par)"
  by (auto simp: getParentCounts_def)

lemma not_root_parents: "\<not> is_root g node \<Longrightarrow> getParentCounts g node \<noteq> []"
proof -
  assume "\<not> is_root g node"
  then obtain par count where "par < length g" "(node, count) \<in> set (ichildrenCounts g par)"
    by (auto simp: is_root_def list_all_iff)
  then have "(par, count) \<in> set (getParentCounts g node)"
    by (simp add: getParentCounts_iff)
  then show ?thesis by auto
qed

lemma link_span_eq: "link_span count = (if count > 1 then 2 else 1)"
  by (simp add: link_span_def)

text \<open>
  A node is visited once and after its parents (its children), so the value it gets is
  final and is computed from final values.
\<close>

lemma topDown_recurrence:
  assumes "parents_first g seen ord" and "distinct ord" and "set seen \<inter> set ord = {}"
    and "topDown_invariant g (set seen) val"
  shows "topDown_invariant g (set seen \<union> set ord) (fold (topDown_step g) ord val)"
  using assms
proof (induction ord arbitrary: seen val)
  case Nil
  then show ?case by simp
next
  case (Cons x xs)
  let ?f = "\<lambda>val (par, count). plus_span (val par) count"
  let ?v = "math_max0 (map (?f val) (getParentCounts g x))"
  let ?val1 = "val(x := ?v)"
  from Cons.prems(1) have px: "\<forall>(par, count)\<in>set (getParentCounts g x). par \<in> set seen"
    and rest: "parents_first g (x # seen) xs"
    by (auto simp: list_all_iff)
  from Cons.prems(3) have xs: "x \<notin> set seen" by auto
  note inv = Cons.prems(4) [unfolded topDown_invariant_def]
  have same: "map (?f ?val1) (getParentCounts g n) = map (?f val) (getParentCounts g n)"
    if "\<forall>(par, count)\<in>set (getParentCounts g n). par \<in> set seen" for n
    using that xs by (intro map_cong) auto
  have "\<forall>v\<in>set (map (?f val) (getParentCounts g x)). v \<noteq> None"
    using px inv by (fastforce simp: plus_span_def)
  from math_max0_Some [OF this] obtain l where l: "?v = Some l" by blast
  have inv1: "topDown_invariant g (set (x # seen)) ?val1"
    unfolding topDown_invariant_def
  proof
    fix n assume n: "n \<in> set (x # seen)"
    show "(\<exists>l. ?val1 n = Some l)
        \<and> ?val1 n = math_max0 (map (?f ?val1) (getParentCounts g n))
        \<and> (\<forall>(par, count)\<in>set (getParentCounts g n). par \<in> set (x # seen))"
    proof (cases "n = x")
      case True
      have 1: "?val1 n = Some l" using True l by simp
      have 2: "math_max0 (map (?f ?val1) (getParentCounts g n)) = Some l"
        unfolding True same [OF px] by (rule l)
      have 3: "\<forall>(par, count)\<in>set (getParentCounts g n). par \<in> set (x # seen)"
        using px True by auto
      from 1 2 3 show ?thesis by simp
    next
      case False
      with n have ns: "n \<in> set seen" by simp
      note t = bspec [OF inv ns]
      have a: "\<exists>l. val n = Some l"
        and b: "val n = math_max0 (map (?f val) (getParentCounts g n))"
        and c: "\<forall>(par, count)\<in>set (getParentCounts g n). par \<in> set seen"
        using t by blast+
      have 1: "?val1 n = val n" using False by simp
      have 2: "math_max0 (map (?f ?val1) (getParentCounts g n)) = val n"
        unfolding same [OF c] by (rule b [symmetric])
      have 3: "\<forall>(par, count)\<in>set (getParentCounts g n). par \<in> set (x # seen)"
        using c by auto
      from 1 2 3 a show ?thesis by simp
    qed
  qed
  have d: "distinct xs" and disj: "set (x # seen) \<inter> set xs = {}"
    using Cons.prems(2,3) by auto
  have step: "topDown_step g x val = ?val1"
    by (simp add: topDown_step_def)
  from Cons.IH [OF rest d disj inv1]
  have "topDown_invariant g (set (x # seen) \<union> set xs) (fold (topDown_step g) xs ?val1)" .
  then show ?case by (simp add: step)
qed

lemma bottomUp_recurrence:
  assumes "children_first g seen ord" and "distinct ord" and "set seen \<inter> set ord = {}"
    and "bottomUp_invariant g (set seen) val M" and "0 \<le> M"
  shows "\<exists>val' M'. fold (bottomUp_step g) ord (val, Some M) = (val', Some M') \<and> 0 \<le> M'
           \<and> bottomUp_invariant g (set seen \<union> set ord) val' M'"
  using assms
proof (induction ord arbitrary: seen val M)
  case Nil
  then show ?case by simp
next
  case (Cons x xs)
  let ?f = "\<lambda>val (child, count). plus_span (val child) count"
  let ?v = "math_max0 (map (?f val) (ichildrenCounts g x))"
  from Cons.prems(1) have cx: "\<forall>(child, count)\<in>set (ichildrenCounts g x). child \<in> set seen"
    and rest: "children_first g (x # seen) xs"
    by (auto simp: list_all_iff)
  from Cons.prems(3) have xs: "x \<notin> set seen" by auto
  note inv = Cons.prems(4) [unfolded bottomUp_invariant_def]
  have "\<forall>v\<in>set (map (?f val) (ichildrenCounts g x)). v \<noteq> None"
  proof
    fix v assume "v \<in> set (map (?f val) (ichildrenCounts g x))"
    then obtain child count where cc: "(child, count) \<in> set (ichildrenCounts g x)"
      and v: "v = plus_span (val child) count" by auto
    from cc cx have "child \<in> set seen" by auto
    with inv obtain k where "val child = Some k" by blast
    with v show "v \<noteq> None" by (simp add: plus_span_def)
  qed
  from math_max0_Some [OF this] obtain h where h: "?v = Some h" "0 \<le> h" by blast
  let ?val1 = "val(x := Some h)"
  let ?M1 = "max M h"
  have same: "map (?f ?val1) (ichildrenCounts g n) = map (?f val) (ichildrenCounts g n)"
    if "\<forall>(child, count)\<in>set (ichildrenCounts g n). child \<in> set seen" for n
    using that xs by (intro map_cong) auto
  have step: "bottomUp_step g x (val, Some M) = (?val1, Some ?M1)"
    using h by (simp add: bottomUp_step_def math_max_def)
  have inv1: "bottomUp_invariant g (set (x # seen)) ?val1 ?M1"
    unfolding bottomUp_invariant_def
  proof
    fix n assume n: "n \<in> set (x # seen)"
    show "(\<exists>k. ?val1 n = Some k \<and> k \<le> ?M1)
        \<and> ?val1 n = math_max0 (map (?f ?val1) (ichildrenCounts g n))
        \<and> (\<forall>(child, count)\<in>set (ichildrenCounts g n). child \<in> set (x # seen))"
    proof (cases "n = x")
      case True
      have 1: "?val1 n = Some h" using True by simp
      have 2: "math_max0 (map (?f ?val1) (ichildrenCounts g n)) = Some h"
        unfolding True same [OF cx] by (rule h(1))
      have 3: "\<forall>(child, count)\<in>set (ichildrenCounts g n). child \<in> set (x # seen)"
        using cx True by auto
      from 1 2 3 show ?thesis by simp
    next
      case False
      with n have ns: "n \<in> set seen" by simp
      note t = bspec [OF inv ns]
      have a: "\<exists>k. val n = Some k \<and> k \<le> M"
        and b: "val n = math_max0 (map (?f val) (ichildrenCounts g n))"
        and c: "\<forall>(child, count)\<in>set (ichildrenCounts g n). child \<in> set seen"
        using t by blast+
      have 1: "?val1 n = val n" using False by simp
      have 2: "math_max0 (map (?f ?val1) (ichildrenCounts g n)) = val n"
        unfolding same [OF c] by (rule b [symmetric])
      have 3: "\<forall>(child, count)\<in>set (ichildrenCounts g n). child \<in> set (x # seen)"
        using c by auto
      from a obtain k where "val n = Some k" "k \<le> M" by blast
      then have 4: "\<exists>k. ?val1 n = Some k \<and> k \<le> ?M1" using 1 by auto
      from 1 2 3 4 show ?thesis by simp
    qed
  qed
  have d: "distinct xs" and disj: "set (x # seen) \<inter> set xs = {}"
    using Cons.prems(2,3) by auto
  have M1: "0 \<le> ?M1" using Cons.prems(5) by simp
  from Cons.IH [OF rest d disj inv1 M1] obtain val' M' where
    "fold (bottomUp_step g) xs (?val1, Some ?M1) = (val', Some M')" "0 \<le> M'"
    "bottomUp_invariant g (set (x # seen) \<union> set xs) val' M'" by blast
  then show ?case by (simp add: step)
qed

lemma topDown_layers:
  assumes "parents_first g [] befor" and "distinct befor" and "set befor = {0 ..< length g}"
  shows "topDown_invariant g {0 ..< length g} (fold (topDown_step g) befor (\<lambda>node. None))"
proof -
  have disj: "set [] \<inter> set befor = {}" by simp
  have inv0: "topDown_invariant g (set []) (\<lambda>node. None)"
    by (simp add: topDown_invariant_def)
  from topDown_recurrence [OF assms(1,2) disj inv0] show ?thesis
    using assms(3) by simp
qed

lemma bottomUp_layers:
  assumes "children_first g [] after" and "distinct after" and "set after = {0 ..< length g}"
  shows "\<exists>val M. fold (bottomUp_step g) after (\<lambda>node. None, Some 0) = (val, Some M)
           \<and> bottomUp_invariant g {0 ..< length g} val M"
proof -
  have disj: "set [] \<inter> set after = {}" by simp
  have inv0: "bottomUp_invariant g (set []) (\<lambda>node. None) 0"
    by (simp add: bottomUp_invariant_def)
  from bottomUp_recurrence [OF assms(1,2) disj inv0] obtain val M where
    "fold (bottomUp_step g) after (\<lambda>node. None, Some 0) = (val, Some M)"
    "bottomUp_invariant g (set [] \<union> set after) val M" by auto
  then show ?thesis using assms(3) by auto
qed

text \<open>
  Along a link the values differ by at least the span of the link, 2 for a multi-link and
  1 otherwise, and by exactly the span along some link of a node that has links.
\<close>

lemma topDown_link:
  assumes "topDown_invariant g S val" and "child \<in> S"
    and "(par, count) \<in> set (getParentCounts g child)"
  shows "\<exists>lp lc. val par = Some lp \<and> val child = Some lc \<and> 0 \<le> lp
           \<and> lp + (if count > 1 then 2 else 1) \<le> lc"
proof -
  let ?f = "\<lambda>(par, count). plus_span (val par) count"
  note c = bspec [OF assms(1) [unfolded topDown_invariant_def] assms(2)]
  from c obtain lc where lc: "val child = Some lc" by blast
  from c have rc: "val child = math_max0 (map ?f (getParentCounts g child))" by blast
  from c assms(3) have pS: "par \<in> S" by blast
  note p = bspec [OF assms(1) [unfolded topDown_invariant_def] pS]
  from p obtain lp where lp: "val par = Some lp" by blast
  from p have "val par = math_max0 (map ?f (getParentCounts g par))" by blast
  with lp math_max0_bounds have lp0: "0 \<le> lp" by metis
  have "plus_span (val par) count \<in> set (map ?f (getParentCounts g child))"
    using assms(3) by force
  moreover from rc lc have "math_max0 (map ?f (getParentCounts g child)) = Some lc" by simp
  ultimately obtain b where "plus_span (val par) count = Some b" "b \<le> lc"
    using math_max0_bounds by blast
  with lp have "lp + link_span count \<le> lc" by (simp add: plus_span_def)
  with lp lc lp0 show ?thesis by (simp add: link_span_eq)
qed

lemma topDown_tight:
  assumes "topDown_invariant g S val" and "child \<in> S" and "getParentCounts g child \<noteq> []"
  shows "\<exists>par count lp. (par, count) \<in> set (getParentCounts g child) \<and> val par = Some lp
           \<and> val child = Some (lp + (if count > 1 then 2 else 1))"
proof -
  let ?f = "\<lambda>(par, count). plus_span (val par) count"
  let ?vs = "map ?f (getParentCounts g child)"
  note c = bspec [OF assms(1) [unfolded topDown_invariant_def] assms(2)]
  from c obtain lc where lc: "val child = Some lc" by blast
  from c have "val child = math_max0 ?vs" by blast
  with lc have m: "math_max0 ?vs = Some lc" by simp
  have ne: "?vs \<noteq> []" using assms(3) by simp
  have pos: "\<forall>v\<in>set ?vs. \<forall>b. v = Some b \<longrightarrow> 0 \<le> b"
  proof (intro ballI allI impI)
    fix v b assume "v \<in> set ?vs" and vb: "v = Some b"
    then obtain par count where pc: "(par, count) \<in> set (getParentCounts g child)"
      and v: "v = plus_span (val par) count" by auto
    from topDown_link [OF assms(1,2) pc] obtain lp where "val par = Some lp" "0 \<le> lp"
      by blast
    with v vb show "0 \<le> b" by (auto simp: plus_span_def link_span_def split: if_splits)
  qed
  from math_max0_attained [OF m ne pos] obtain par count where
    pc: "(par, count) \<in> set (getParentCounts g child)"
    and e: "plus_span (val par) count = Some lc" by auto
  from e obtain lp where "val par = Some lp" "lc = lp + link_span count"
    by (auto simp: plus_span_def split: option.splits)
  with pc lc show ?thesis by (auto simp: link_span_eq)
qed

lemma bottomUp_link:
  assumes "bottomUp_invariant g S val M" and "par \<in> S"
    and "(child, count) \<in> set (ichildrenCounts g par)"
  shows "\<exists>hp hc. val par = Some hp \<and> val child = Some hc \<and> 0 \<le> hc \<and> hp \<le> M
           \<and> hc + (if count > 1 then 2 else 1) \<le> hp"
proof -
  let ?f = "\<lambda>(child, count). plus_span (val child) count"
  note p = bspec [OF assms(1) [unfolded bottomUp_invariant_def] assms(2)]
  from p obtain hp where hp: "val par = Some hp" "hp \<le> M" by blast
  from p have rp: "val par = math_max0 (map ?f (ichildrenCounts g par))" by blast
  from p assms(3) have cS: "child \<in> S" by blast
  note c = bspec [OF assms(1) [unfolded bottomUp_invariant_def] cS]
  from c obtain hc where hc: "val child = Some hc" by blast
  from c have "val child = math_max0 (map ?f (ichildrenCounts g child))" by blast
  with hc math_max0_bounds have hc0: "0 \<le> hc" by metis
  have "plus_span (val child) count \<in> set (map ?f (ichildrenCounts g par))"
    using assms(3) by force
  moreover from rp hp have "math_max0 (map ?f (ichildrenCounts g par)) = Some hp" by simp
  ultimately obtain b where "plus_span (val child) count = Some b" "b \<le> hp"
    using math_max0_bounds by blast
  with hc have "hc + link_span count \<le> hp" by (simp add: plus_span_def)
  with hp hc hc0 show ?thesis by (simp add: link_span_eq)
qed

lemma bottomUp_tight:
  assumes "bottomUp_invariant g S val M" and "par \<in> S" and "ichildrenCounts g par \<noteq> []"
  shows "\<exists>child count hc. (child, count) \<in> set (ichildrenCounts g par) \<and> val child = Some hc
           \<and> val par = Some (hc + (if count > 1 then 2 else 1))"
proof -
  let ?f = "\<lambda>(child, count). plus_span (val child) count"
  let ?vs = "map ?f (ichildrenCounts g par)"
  note p = bspec [OF assms(1) [unfolded bottomUp_invariant_def] assms(2)]
  from p obtain hp where hp: "val par = Some hp" by blast
  from p have "val par = math_max0 ?vs" by blast
  with hp have m: "math_max0 ?vs = Some hp" by simp
  have ne: "?vs \<noteq> []" using assms(3) by simp
  have pos: "\<forall>v\<in>set ?vs. \<forall>b. v = Some b \<longrightarrow> 0 \<le> b"
  proof (intro ballI allI impI)
    fix v b assume "v \<in> set ?vs" and vb: "v = Some b"
    then obtain child count where cc: "(child, count) \<in> set (ichildrenCounts g par)"
      and v: "v = plus_span (val child) count" by auto
    from bottomUp_link [OF assms(1,2) cc] obtain hc where "val child = Some hc" "0 \<le> hc"
      by blast
    with v vb show "0 \<le> b" by (auto simp: plus_span_def link_span_def split: if_splits)
  qed
  from math_max0_attained [OF m ne pos] obtain child count where
    cc: "(child, count) \<in> set (ichildrenCounts g par)"
    and e: "plus_span (val child) count = Some hp" by auto
  from e obtain hc where "val child = Some hc" "hp = hc + link_span count"
    by (auto simp: plus_span_def split: option.splits)
  with cc hp show ?thesis by (auto simp: link_span_eq)
qed

text \<open>
  Claim C6. Top down, when the iterator yields every node, a node without parents gets
  layer 0. Bottom up, when the iterator yields every node after its children, a node
  without children gets a layer \<open>M\<close> that no node exceeds: the maximum layer. In either
  direction, when the iterator yields every node once and in its order, the layer of a
  child exceeds the layer of its parent by at least the span of the link, 2 for a
  multi-link and 1 otherwise, every layer is at least 0, and the difference is exactly the
  span along some link into every node with parents (top down) or out of every node with
  children (bottom up): top down a layer is the maximum over the parents of their layer
  plus the span, bottom up it is the minimum over the children of their layer minus the
  span.
\<close>

theorem longestPath_roots_and_leaves:
  "(topDown options \<and> set befor = {0 ..< length g} \<and> node < length g \<and> is_root g node
      \<longrightarrow> longestPathCall befor after options g node = Some 0)
   \<and> (\<not> topDown options \<and> children_first g [] after \<and> set after = {0 ..< length g}
        \<and> is_leaf g node
      \<longrightarrow> (\<exists>M. longestPathCall befor after options g node = Some M
             \<and> (\<forall>m<length g. \<exists>l. longestPathCall befor after options g m = Some l
                    \<and> 0 \<le> l \<and> l \<le> M)))
   \<and> (topDown options \<and> wf_dag g \<and> parents_first g [] befor \<and> distinct befor
        \<and> set befor = {0 ..< length g}
      \<longrightarrow> (\<forall>par<length g. \<forall>(child, count)\<in>set (ichildrenCounts g par).
               \<exists>lp lc. longestPathCall befor after options g par = Some lp
                 \<and> longestPathCall befor after options g child = Some lc
                 \<and> 0 \<le> lp \<and> lp + (if count > 1 then 2 else 1) \<le> lc)
          \<and> (\<forall>child<length g. is_root g child
                \<or> (\<exists>par<length g. \<exists>count lp. (child, count) \<in> set (ichildrenCounts g par)
                      \<and> longestPathCall befor after options g par = Some lp
                      \<and> longestPathCall befor after options g child
                          = Some (lp + (if count > 1 then 2 else 1)))))
   \<and> (\<not> topDown options \<and> children_first g [] after \<and> distinct after
        \<and> set after = {0 ..< length g}
      \<longrightarrow> (\<forall>par<length g. \<forall>(child, count)\<in>set (ichildrenCounts g par).
               \<exists>lp lc. longestPathCall befor after options g par = Some lp
                 \<and> longestPathCall befor after options g child = Some lc
                 \<and> 0 \<le> lp \<and> lp + (if count > 1 then 2 else 1) \<le> lc)
          \<and> (\<forall>par<length g. is_leaf g par
                \<or> (\<exists>child count lp. (child, count) \<in> set (ichildrenCounts g par)
                      \<and> longestPathCall befor after options g par = Some lp
                      \<and> longestPathCall befor after options g child
                          = Some (lp + (if count > 1 then 2 else 1)))))"
  (is "?A \<and> ?B \<and> ?C \<and> ?D")
proof -
  have A: ?A
  proof
    assume a: "topDown options \<and> set befor = {0 ..< length g} \<and> node < length g \<and> is_root g node"
    then have "node \<in> set befor" by simp
    with a show "longestPathCall befor after options g node = Some 0"
      by (simp add: longestPathCall_def topDown_root getParentCounts_root)
  qed
  have B: ?B
  proof
    assume a: "\<not> topDown options \<and> children_first g [] after \<and> set after = {0 ..< length g}
        \<and> is_leaf g node"
    then have cf: "children_first g [] after" and cover: "set after = {0 ..< length g}"
      and leaf: "node < length g" "ichildrenCounts g node = []"
      by (simp_all add: is_leaf_def)
    from bottomUp_heights [OF cf, of "\<lambda>node. None" 0] obtain val M where
      run: "fold (bottomUp_step g) after (\<lambda>node. None, Some 0) = (val, Some M)"
      and M: "0 \<le> M"
      and hs: "\<forall>m\<in>set after. \<exists>h. val m = Some h \<and> 0 \<le> h \<and> h \<le> M"
      by auto
    have res: "longestPathCall befor after options g m = minus_num (Some M) (val m)"
      if "m < length g" for m
      using a run that by (simp add: longestPathCall_def flip_fold)
    have "node \<in> set after" using cover leaf by simp
    with bottomUp_leaf [OF leaf(2), of "(\<lambda>node. None, Some 0)" after] run
    have "val node = Some 0" by simp
    with res [OF leaf(1)] have 1: "longestPathCall befor after options g node = Some M"
      by (simp add: minus_num_def)
    have 2: "\<exists>l. longestPathCall befor after options g m = Some l \<and> 0 \<le> l \<and> l \<le> M"
      if m: "m < length g" for m
    proof -
      from m cover have "m \<in> set after" by simp
      with hs obtain h where "val m = Some h" "0 \<le> h" "h \<le> M" by blast
      with res [OF m] show ?thesis by (simp add: minus_num_def)
    qed
    from 1 2 show "\<exists>M. longestPathCall befor after options g node = Some M
             \<and> (\<forall>m<length g. \<exists>l. longestPathCall befor after options g m = Some l
                    \<and> 0 \<le> l \<and> l \<le> M)"
      by blast
  qed
  have C: ?C
  proof (intro impI conjI allI ballI)
    assume a: "topDown options \<and> wf_dag g \<and> parents_first g [] befor \<and> distinct befor
        \<and> set befor = {0 ..< length g}"
    then have L: "longestPathCall befor after options g
                    = fold (topDown_step g) befor (\<lambda>node. None)"
      by (simp add: longestPathCall_def)
    from a have inv: "topDown_invariant g {0 ..< length g} (longestPathCall befor after options g)"
      unfolding L by (intro topDown_layers) simp_all
    {
      fix par cc assume par: "par < length g" and cc: "cc \<in> set (ichildrenCounts g par)"
      obtain child count where cce: "cc = (child, count)" by (cases cc)
      from a par cc cce have child: "child < length g"
        by (auto simp: wf_dag_def list_all_iff ichildrenCounts_def)
      from par cc cce have "(par, count) \<in> set (getParentCounts g child)"
        by (simp add: getParentCounts_iff)
      from topDown_link [OF inv _ this] child
      show "case cc of (child, count) \<Rightarrow>
              \<exists>lp lc. longestPathCall befor after options g par = Some lp
                 \<and> longestPathCall befor after options g child = Some lc
                 \<and> 0 \<le> lp \<and> lp + (if count > 1 then 2 else 1) \<le> lc"
        by (simp add: cce)
    }
    {
      fix child assume child: "child < length g"
      show "is_root g child
         \<or> (\<exists>par<length g. \<exists>count lp. (child, count) \<in> set (ichildrenCounts g par)
               \<and> longestPathCall befor after options g par = Some lp
               \<and> longestPathCall befor after options g child
                   = Some (lp + (if count > 1 then 2 else 1)))"
      proof (cases "is_root g child")
        case True
        then show ?thesis by simp
      next
        case False
        from topDown_tight [OF inv _ not_root_parents [OF False]] child
        obtain par count lp where "(par, count) \<in> set (getParentCounts g child)"
          "longestPathCall befor after options g par = Some lp"
          "longestPathCall befor after options g child
             = Some (lp + (if count > 1 then 2 else 1))" by auto
        then show ?thesis by (auto simp: getParentCounts_iff)
      qed
    }
  qed
  have D: ?D
  proof (intro impI)
    assume a: "\<not> topDown options \<and> children_first g [] after \<and> distinct after
        \<and> set after = {0 ..< length g}"
    then have cf: "children_first g [] after" and d: "distinct after"
      and cover: "set after = {0 ..< length g}" by simp_all
    from bottomUp_layers [OF cf d cover] obtain val M where
      run: "fold (bottomUp_step g) after (\<lambda>node. None, Some 0) = (val, Some M)"
      and inv: "bottomUp_invariant g {0 ..< length g} val M" by blast
    have res: "longestPathCall befor after options g m = minus_num (Some M) (val m)"
      if "m < length g" for m
      using a run that by (simp add: longestPathCall_def flip_fold)
    have kids: "child < length g"
      if "par < length g" "(child, count) \<in> set (ichildrenCounts g par)" for par child count
      using bspec [OF inv [unfolded bottomUp_invariant_def], of par] that by auto
    have 1: "\<forall>par<length g. \<forall>(child, count)\<in>set (ichildrenCounts g par).
               \<exists>lp lc. longestPathCall befor after options g par = Some lp
                 \<and> longestPathCall befor after options g child = Some lc
                 \<and> 0 \<le> lp \<and> lp + (if count > 1 then 2 else 1) \<le> lc"
    proof (intro allI impI ballI)
      fix par cc assume par: "par < length g" and cc: "cc \<in> set (ichildrenCounts g par)"
      obtain child count where cce: "cc = (child, count)" by (cases cc)
      from bottomUp_link [OF inv _ cc [unfolded cce]] par obtain hp hc where
        h: "val par = Some hp" "val child = Some hc" "0 \<le> hc" "hp \<le> M"
          "hc + (if count > 1 then 2 else 1) \<le> hp" by auto
      from kids [OF par cc [unfolded cce]] have child: "child < length g" .
      show "case cc of (child, count) \<Rightarrow>
              \<exists>lp lc. longestPathCall befor after options g par = Some lp
                 \<and> longestPathCall befor after options g child = Some lc
                 \<and> 0 \<le> lp \<and> lp + (if count > 1 then 2 else 1) \<le> lc"
        using h res [OF par] res [OF child] by (simp add: cce minus_num_def)
    qed
    have 2: "\<forall>par<length g. is_leaf g par
                \<or> (\<exists>child count lp. (child, count) \<in> set (ichildrenCounts g par)
                      \<and> longestPathCall befor after options g par = Some lp
                      \<and> longestPathCall befor after options g child
                          = Some (lp + (if count > 1 then 2 else 1)))"
    proof (intro allI impI)
      fix par assume par: "par < length g"
      show "is_leaf g par
                \<or> (\<exists>child count lp. (child, count) \<in> set (ichildrenCounts g par)
                      \<and> longestPathCall befor after options g par = Some lp
                      \<and> longestPathCall befor after options g child
                          = Some (lp + (if count > 1 then 2 else 1)))"
      proof (cases "is_leaf g par")
        case True
        then show ?thesis by simp
      next
        case False
        with par have ne: "ichildrenCounts g par \<noteq> []" by (simp add: is_leaf_def)
        from bottomUp_tight [OF inv _ ne] par obtain child count hc where
          cc: "(child, count) \<in> set (ichildrenCounts g par)" and hc: "val child = Some hc"
          and hp: "val par = Some (hc + (if count > 1 then 2 else 1))" by auto
        from kids [OF par cc] have child: "child < length g" .
        have "longestPathCall befor after options g par
                = Some (M - (hc + (if count > 1 then 2 else 1)))"
          using res [OF par] hp by (simp add: minus_num_def)
        moreover have "longestPathCall befor after options g child = Some (M - hc)"
          using res [OF child] hc by (simp add: minus_num_def)
        ultimately show ?thesis using cc by auto
      qed
    qed
    from 1 2 show "(\<forall>par<length g. \<forall>(child, count)\<in>set (ichildrenCounts g par).
               \<exists>lp lc. longestPathCall befor after options g par = Some lp
                 \<and> longestPathCall befor after options g child = Some lc
                 \<and> 0 \<le> lp \<and> lp + (if count > 1 then 2 else 1) \<le> lc)
          \<and> (\<forall>par<length g. is_leaf g par
                \<or> (\<exists>child count lp. (child, count) \<in> set (ichildrenCounts g par)
                      \<and> longestPathCall befor after options g par = Some lp
                      \<and> longestPathCall befor after options g child
                          = Some (lp + (if count > 1 then 2 else 1))))" ..
  qed
  from A B C D show ?thesis by blast
qed

text \<open>Both directions on the dag \<open>triangle\<close>, whose link 0 \<rightarrow> 2 is a multi-link.\<close>

lemma longestPath_triangle:
  "map (longestPathCall [0, 1, 2] [2, 1, 0] \<lparr>topDown = True\<rparr> triangle) [0, 1, 2]
     = [Some 0, Some 1, Some 2]"
  "map (longestPathCall [0, 1, 2] [2, 1, 0] \<lparr>topDown = False\<rparr> triangle) [0, 1, 2]
     = [Some 0, Some 1, Some 2]"
  by (simp_all add: longestPathCall_def triangle_def topDown_step_def bottomUp_step_def
      flip_step_def getParentCounts_def ichildrenCounts_def math_max0_def math_max_def
      plus_span_def link_span_def minus_num_def upt_rec Let_def)

theorem longestPath_roots_and_leaves_witness:
  "(topDown \<lparr>topDown = True\<rparr> \<and> set [0, 1, 2] = {0 ..< length triangle} \<and> 0 < length triangle
      \<and> is_root triangle 0)
   \<and> longestPathCall [0, 1, 2] [2, 1, 0] \<lparr>topDown = True\<rparr> triangle 0 = Some 0
   \<and> (\<not> topDown \<lparr>topDown = False\<rparr> \<and> children_first triangle [] [2, 1, 0]
      \<and> set [2, 1, 0] = {0 ..< length triangle} \<and> is_leaf triangle 2)
   \<and> (\<exists>M. longestPathCall [0, 1, 2] [2, 1, 0] \<lparr>topDown = False\<rparr> triangle 2 = Some M
        \<and> (\<forall>m<length triangle.
              \<exists>l. longestPathCall [0, 1, 2] [2, 1, 0] \<lparr>topDown = False\<rparr> triangle m = Some l
                \<and> 0 \<le> l \<and> l \<le> M))
   \<and> (wf_dag triangle \<and> parents_first triangle [] [0, 1, 2] \<and> distinct [0, 1, 2 :: nat])
   \<and> (\<exists>lp lc. longestPathCall [0, 1, 2] [2, 1, 0] \<lparr>topDown = True\<rparr> triangle 0 = Some lp
        \<and> longestPathCall [0, 1, 2] [2, 1, 0] \<lparr>topDown = True\<rparr> triangle 2 = Some lc
        \<and> 0 \<le> lp \<and> lp + 2 \<le> lc)
   \<and> distinct [2, 1, 0 :: nat]
   \<and> (\<exists>lp lc. longestPathCall [0, 1, 2] [2, 1, 0] \<lparr>topDown = False\<rparr> triangle 0 = Some lp
        \<and> longestPathCall [0, 1, 2] [2, 1, 0] \<lparr>topDown = False\<rparr> triangle 2 = Some lc
        \<and> 0 \<le> lp \<and> lp + 2 \<le> lc)"
  (is "?H1 \<and> ?C1 \<and> ?H2 \<and> ?C2 \<and> ?H3 \<and> ?C3 \<and> ?H4 \<and> ?C4")
proof -
  have h1: ?H1
    by (auto simp: triangle_def is_root_def ichildrenCounts_def upt_rec)
  have h2: ?H2
    by (auto simp: triangle_def is_leaf_def ichildrenCounts_def)
  have h3: ?H3
    by (simp add: triangle_def wf_dag_def getParentCounts_def ichildrenCounts_def upt_rec)
  have h4: ?H4 by simp
  have link: "0 < length triangle" "(2, 2) \<in> set (ichildrenCounts triangle 0)"
    by (simp_all add: triangle_def ichildrenCounts_def)
  note t1 = longestPath_roots_and_leaves
    [where options = "\<lparr>topDown = True\<rparr>" and befor = "[0, 1, 2]" and after = "[2, 1, 0]"
       and g = triangle and node = 0]
  note t2 = longestPath_roots_and_leaves
    [where options = "\<lparr>topDown = False\<rparr>" and befor = "[0, 1, 2]" and after = "[2, 1, 0]"
       and g = triangle and node = 2]
  have c1: ?C1 using h1 t1 by blast
  have c2: ?C2 using h2 t2 by blast
  from t1 h1 h3 have
    "\<forall>par<length triangle. \<forall>(child, count)\<in>set (ichildrenCounts triangle par).
       \<exists>lp lc. longestPathCall [0, 1, 2] [2, 1, 0] \<lparr>topDown = True\<rparr> triangle par = Some lp
         \<and> longestPathCall [0, 1, 2] [2, 1, 0] \<lparr>topDown = True\<rparr> triangle child = Some lc
         \<and> 0 \<le> lp \<and> lp + (if count > 1 then 2 else 1) \<le> lc"
    by blast
  from this [rule_format, OF link] have c3: ?C3 by simp
  from t2 h2 h4 have
    "\<forall>par<length triangle. \<forall>(child, count)\<in>set (ichildrenCounts triangle par).
       \<exists>lp lc. longestPathCall [0, 1, 2] [2, 1, 0] \<lparr>topDown = False\<rparr> triangle par = Some lp
         \<and> longestPathCall [0, 1, 2] [2, 1, 0] \<lparr>topDown = False\<rparr> triangle child = Some lc
         \<and> 0 \<le> lp \<and> lp + (if count > 1 then 2 else 1) \<le> lc"
    by blast
  from this [rule_format, OF link] have c4: ?C4 by simp
  from h1 c1 h2 c2 h3 c3 h4 c4 show ?thesis by blast
qed

section \<open>Simplex layering: the objective\<close>

text \<open>
  The objective changes by \<open>c * w node\<close> when \<open>c\<close> is added to the coefficient of a
  node, and not at all when a constraint is added.
\<close>

lemma sum_list_delta:
  "a < n \<Longrightarrow> (\<Sum>i\<leftarrow>[0 ..< n]. f i + (if i = a then c else 0)) = (\<Sum>i\<leftarrow>[0 ..< n]. f i) + (c::int)"
  by (simp add: interv_sum_list_conv_sum_set_nat sum.distrib)

lemma objective_cong:
  "opt_coef m' = opt_coef m \<Longrightarrow> objective n m' w = objective n m w"
  by (simp add: objective_def)

lemma objective_upd_opt:
  assumes "variables m node = Some v" and "node < n" and "var_opt v' = var_opt v + c"
  shows "objective n (m\<lparr>variables := (variables m)(node \<mapsto> v')\<rparr>) w
           = objective n m w + c * w node"
proof -
  have "opt_coef (m\<lparr>variables := (variables m)(node \<mapsto> v')\<rparr>) i * w i
          = opt_coef m i * w i + (if i = node then c * w node else 0)" for i
    using assms(1,3) by (simp add: opt_coef_def algebra_simps)
  then show ?thesis
    using sum_list_delta [OF assms(2), of "\<lambda>i. opt_coef m i * w i" "c * w node"]
    by (simp add: objective_def)
qed

lemma dom_upt_Some:
  assumes "dom f = {0 ..< (n::nat)}" and "k < n"
  shows "\<exists>v. f k = Some v"
proof -
  have "k \<in> dom f" using assms by simp
  then show ?thesis by (auto simp: dom_def)
qed

lemma upd_var_Some:
  "variables m node = Some v \<Longrightarrow>
     upd_var node f m = Inr (m\<lparr>variables := (variables m)(node \<mapsto> f v)\<rparr>)"
  by (simp add: upd_var_def)

lemma before_keeps:
  assumes "first \<in> dom (variables m)" and "second \<in> dom (variables m)"
  shows "\<exists>m'. before p first second d m = Inr m'
           \<and> dom (variables m') = dom (variables m) \<and> opt_coef m' = opt_coef m"
proof -
  from assms obtain fv sv where fv: "variables m first = Some fv"
    and sv: "variables m second = Some sv" by auto
  show ?thesis
    using fv sv assms
    by (auto simp: before_def Let_def upd_var_def bindE_def opt_coef_def fun_eq_iff
        split: option.splits)
qed

lemma equal_layer_keeps:
  assumes "first \<in> dom (variables m)" and "second \<in> dom (variables m)"
  shows "\<exists>m'. equal_layer p first second m = Inr m'
           \<and> dom (variables m') = dom (variables m) \<and> opt_coef m' = opt_coef m"
proof -
  from before_keeps [OF assms, of "p @ '' before''" 0] obtain m1 where
    m1: "before (p @ '' before'') first second 0 m = Inr m1"
      "dom (variables m1) = dom (variables m)" "opt_coef m1 = opt_coef m" by blast
  from before_keeps [of second m1 first "p @ '' after''" 0] assms m1 obtain m2 where
    "before (p @ '' after'') second first 0 m1 = Inr m2"
      "dom (variables m2) = dom (variables m1)" "opt_coef m2 = opt_coef m1" by auto
  with m1 show ?thesis by (simp add: equal_layer_def bindE_def)
qed

text \<open>
  One link: \<^verbatim>\<open>before("link", ...)\<close>, \<^verbatim>\<open>variable(node).opt += count\<close> and
  \<^verbatim>\<open>variable(child).opt -= count\<close> take \<open>(w child - w node) * count\<close> from the
  objective, for every assignment \<open>w\<close>.
\<close>

lemma add_link_objective:
  assumes "dom (variables m) = {0 ..< n}" and "node < n" and "child < n"
  shows "\<exists>m'. add_link node (child, count) m = Inr m' \<and> dom (variables m') = {0 ..< n}
           \<and> (\<forall>w. objective n m' w = objective n m w - (w child - w node) * int count)"
proof -
  from before_keeps [of node m child "''link''" "if count > 1 then 2 else 1"] assms
  obtain m1 where m1: "before ''link'' node child (if count > 1 then 2 else 1) m = Inr m1"
    and d1: "dom (variables m1) = {0 ..< n}" and o1: "opt_coef m1 = opt_coef m"
    by auto
  from dom_upt_Some [OF d1 assms(2)] obtain v1 where v1: "variables m1 node = Some v1" ..
  let ?m2 = "m1\<lparr>variables := (variables m1)(node \<mapsto> v1\<lparr>var_opt := var_opt v1 + int count\<rparr>)\<rparr>"
  have d2: "dom (variables ?m2) = {0 ..< n}" using d1 assms(2) by auto
  from dom_upt_Some [OF d2 assms(3)] obtain v2 where v2: "variables ?m2 child = Some v2" ..
  let ?m3 = "?m2\<lparr>variables := (variables ?m2)(child \<mapsto> v2\<lparr>var_opt := var_opt v2 - int count\<rparr>)\<rparr>"
  have d3: "dom (variables ?m3) = {0 ..< n}" using d2 assms(3) by auto
  have run: "add_link node (child, count) m = Inr ?m3"
    using m1 upd_var_Some [OF v1] upd_var_Some [OF v2]
    by (simp add: add_link_def bindE_def)
  have "objective n ?m3 w = objective n m w - (w child - w node) * int count" for w
  proof -
    have "objective n ?m2 w = objective n m1 w + int count * w node"
      by (rule objective_upd_opt [OF v1 assms(2)]) simp
    moreover have "objective n ?m3 w = objective n ?m2 w + (- int count) * w child"
      by (rule objective_upd_opt [OF v2 assms(3)]) simp
    moreover have "objective n m1 w = objective n m w"
      by (rule objective_cong [OF o1])
    ultimately show ?thesis by (simp add: algebra_simps)
  qed
  with run d3 show ?thesis by blast
qed

lemma foldE_add_link:
  assumes "dom (variables m) = {0 ..< n}" and "node < n"
    and "\<forall>(child, count)\<in>set cs. child < n"
  shows "\<exists>m'. foldE (add_link node) cs m = Inr m' \<and> dom (variables m') = {0 ..< n}
           \<and> (\<forall>w. objective n m' w
                 = objective n m w - (\<Sum>(child, count)\<leftarrow>cs. (w child - w node) * int count))"
  using assms
proof (induction cs arbitrary: m)
  case Nil
  then show ?case by simp
next
  case (Cons c cs)
  obtain child count where c: "c = (child, count)" by (cases c)
  with Cons.prems have "child < n" by simp
  from add_link_objective [OF Cons.prems(1,2) this, of count] obtain m1 where
    m1: "add_link node (child, count) m = Inr m1" "dom (variables m1) = {0 ..< n}"
      "\<forall>w. objective n m1 w = objective n m w - (w child - w node) * int count" by blast
  from Cons.prems(3) have "\<forall>(child, count)\<in>set cs. child < n" by simp
  from Cons.IH [OF m1(2) Cons.prems(2) this] obtain m' where
    "foldE (add_link node) cs m1 = Inr m'" "dom (variables m') = {0 ..< n}"
    "\<forall>w. objective n m' w
        = objective n m1 w - (\<Sum>(child, count)\<leftarrow>cs. (w child - w node) * int count)" by blast
  with m1 c show ?case by (simp add: bindE_def)
qed

lemma foldE_add_links:
  assumes "dom (variables m) = {0 ..< n}"
    and "\<forall>node\<in>set ns. node < n \<and> (\<forall>(child, count)\<in>set (ichildrenCounts g node). child < n)"
  shows "\<exists>m'. foldE (\<lambda>node. foldE (add_link node) (ichildrenCounts g node)) ns m = Inr m'
           \<and> dom (variables m') = {0 ..< n}
           \<and> (\<forall>w. objective n m' w
                 = objective n m w
                   - (\<Sum>node\<leftarrow>ns. \<Sum>(child, count)\<leftarrow>ichildrenCounts g node.
                        (w child - w node) * int count))"
  using assms
proof (induction ns arbitrary: m)
  case Nil
  then show ?case by simp
next
  case (Cons node ns)
  from Cons.prems(2) have node: "node < n"
    and kids: "\<forall>(child, count)\<in>set (ichildrenCounts g node). child < n" by auto
  from foldE_add_link [OF Cons.prems(1) node kids] obtain m1 where
    m1: "foldE (add_link node) (ichildrenCounts g node) m = Inr m1"
      "dom (variables m1) = {0 ..< n}"
      "\<forall>w. objective n m1 w = objective n m w
          - (\<Sum>(child, count)\<leftarrow>ichildrenCounts g node. (w child - w node) * int count)"
    by blast
  from Cons.prems(2) have
    "\<forall>node\<in>set ns. node < n \<and> (\<forall>(child, count)\<in>set (ichildrenCounts g node). child < n)"
    by simp
  from Cons.IH [OF m1(2) this] obtain m' where
    "foldE (\<lambda>node. foldE (add_link node) (ichildrenCounts g node)) ns m1 = Inr m'"
    "dom (variables m') = {0 ..< n}"
    "\<forall>w. objective n m' w = objective n m1 w
        - (\<Sum>node\<leftarrow>ns. \<Sum>(child, count)\<leftarrow>ichildrenCounts g node. (w child - w node) * int count)"
    by blast
  with m1 show ?case by (simp add: bindE_def)
qed

lemma add_links_objective:
  assumes "wf_dag g" and "dom (variables m) = {0 ..< length g}"
  shows "\<exists>m'. add_links g m = Inr m' \<and> dom (variables m') = {0 ..< length g}
           \<and> (\<forall>w. objective (length g) m' w = objective (length g) m w - total_span g w)"
proof -
  have "\<forall>node\<in>set [0 ..< length g]. node < length g
          \<and> (\<forall>(child, count)\<in>set (ichildrenCounts g node). child < length g)"
    using assms(1) by (auto simp: wf_dag_def list_all_iff ichildrenCounts_def)
  from foldE_add_links [OF assms(2) this] show ?thesis
    by (simp add: add_links_def total_span_def)
qed

lemma bigrams_subset: "(a, b) \<in> set (bigrams xs) \<Longrightarrow> a \<in> set xs \<and> b \<in> set xs"
proof (cases xs)
  case Nil
  assume "(a, b) \<in> set (bigrams xs)"
  with Nil show ?thesis by (simp add: bigrams_def)
next
  case (Cons y ys)
  assume "(a, b) \<in> set (bigrams xs)"
  then have "a \<in> set xs" "b \<in> set (tl xs)"
    unfolding bigrams_def by (auto dest: set_zip_leftD set_zip_rightD)
  with Cons show ?thesis by simp
qed

lemma group_nodes_simps:
  "group_nodes [] = {}"
  "group_nodes ((k, ns) # gs) = set ns \<union> group_nodes gs"
  by (simp_all add: group_nodes_def)

lemma group_push_nodes: "group_nodes (group_push k node gs) = insert node (group_nodes gs)"
  by (induction k node gs rule: group_push.induct) (auto simp: group_nodes_simps)

lemma group_push_not_Nil: "group_push k node gs \<noteq> []"
  by (induction k node gs rule: group_push.induct) auto

text \<open>The first loop: what it leaves in the model, the ranks and the groups.\<close>

lemma add_node_parts:
  "fst (add_node options x s)
     = (fst s)\<lparr>ints := insert x (ints (fst s)),
               variables := (variables (fst s))(x \<mapsto> \<lparr>var_opt = 0, var_coef = Map.empty\<rparr>)\<rparr>"
  "fst (snd (add_node options x s))
     = (case rank options x of None \<Rightarrow> fst (snd s) | Some r \<Rightarrow> fst (snd s) @ [(r, x)])"
  "snd (snd (add_node options x s))
     = (case group_of options x of None \<Rightarrow> snd (snd s)
        | Some k \<Rightarrow> group_push k x (snd (snd s)))"
proof -
  obtain m ranks groups where s: "s = (m, ranks, groups)" by (cases s) auto
  show "fst (add_node options x s)
     = (fst s)\<lparr>ints := insert x (ints (fst s)),
               variables := (variables (fst s))(x \<mapsto> \<lparr>var_opt = 0, var_coef = Map.empty\<rparr>)\<rparr>"
    by (simp add: s add_node_def)
  show "fst (snd (add_node options x s))
     = (case rank options x of None \<Rightarrow> fst (snd s) | Some r \<Rightarrow> fst (snd s) @ [(r, x)])"
    by (simp add: s add_node_def split: option.splits)
  show "snd (snd (add_node options x s))
     = (case group_of options x of None \<Rightarrow> snd (snd s)
        | Some k \<Rightarrow> group_push k x (snd (snd s)))"
    by (simp add: s add_node_def split: option.splits)
qed

lemma add_node_fold_dom:
  "dom (variables (fst (fold (add_node options) xs s))) = dom (variables (fst s)) \<union> set xs"
  by (induction xs arbitrary: s) (auto simp: add_node_parts)

lemma add_node_fold_opt:
  "opt_coef (fst (fold (add_node options) xs s)) i
     = (if i \<in> set xs then 0 else opt_coef (fst s) i)"
  by (induction xs arbitrary: s) (auto simp: add_node_parts opt_coef_def)

lemma add_node_fold_ranks:
  "snd ` set (fst (snd (fold (add_node options) xs s))) \<subseteq> snd ` set (fst (snd s)) \<union> set xs"
proof (induction xs arbitrary: s)
  case Nil
  then show ?case by simp
next
  case (Cons x xs)
  have "snd ` set (fst (snd (add_node options x s))) \<subseteq> insert x (snd ` set (fst (snd s)))"
    by (auto simp: add_node_parts split: option.splits)
  with Cons [of "add_node options x s"] show ?case by auto
qed

lemma add_node_fold_groups:
  "group_nodes (snd (snd (fold (add_node options) xs s)))
     \<subseteq> group_nodes (snd (snd s)) \<union> set xs"
proof (induction xs arbitrary: s)
  case Nil
  then show ?case by simp
next
  case (Cons x xs)
  have "group_nodes (snd (snd (add_node options x s))) \<subseteq> insert x (group_nodes (snd (snd s)))"
    by (auto simp: add_node_parts group_push_nodes split: option.splits)
  with Cons [of "add_node options x s"] show ?case by auto
qed

lemma add_node_fold_no_ranks:
  "fst (snd (fold (add_node options) xs s)) = []
     \<longleftrightarrow> fst (snd s) = [] \<and> (\<forall>i\<in>set xs. rank options i = None)"
  by (induction xs arbitrary: s) (auto simp: add_node_parts split: option.splits)

lemma add_node_fold_no_groups:
  "snd (snd (fold (add_node options) xs s)) = []
     \<longleftrightarrow> snd (snd s) = [] \<and> (\<forall>i\<in>set xs. group_of options i = None)"
  by (induction xs arbitrary: s)
     (auto simp: add_node_parts group_push_not_Nil split: option.splits)

lemma add_nodes_result:
  assumes "add_nodes options g = (m, ranks, groups)"
  shows "dom (variables m) = {0 ..< length g}"
    and "opt_coef m = (\<lambda>node. 0)"
    and "snd ` set ranks \<subseteq> {0 ..< length g}"
    and "group_nodes groups \<subseteq> {0 ..< length g}"
    and "ranks = [] \<longleftrightarrow> (\<forall>i<length g. rank options i = None)"
    and "groups = [] \<longleftrightarrow> (\<forall>i<length g. group_of options i = None)"
proof -
  let ?s0 = "(\<lparr>variables = Map.empty, constraints = Map.empty, ints = {}\<rparr>, [], [])
               :: lp_model \<times> (int \<times> nat) list \<times> (string \<times> nat list) list"
  have m: "m = fst (fold (add_node options) [0 ..< length g] ?s0)"
    and r: "ranks = fst (snd (fold (add_node options) [0 ..< length g] ?s0))"
    and gs: "groups = snd (snd (fold (add_node options) [0 ..< length g] ?s0))"
    using assms by (simp_all add: add_nodes_def)
  show "dom (variables m) = {0 ..< length g}"
    unfolding m add_node_fold_dom by simp
  have "opt_coef m i = 0" for i
    unfolding m add_node_fold_opt by (simp add: opt_coef_def)
  then show "opt_coef m = (\<lambda>node. 0)" by (simp add: fun_eq_iff)
  show "snd ` set ranks \<subseteq> {0 ..< length g}"
    using add_node_fold_ranks [of options "[0 ..< length g]" ?s0] unfolding r by simp
  show "group_nodes groups \<subseteq> {0 ..< length g}"
    using add_node_fold_groups [of options "[0 ..< length g]" ?s0] unfolding gs
    by (simp add: group_nodes_simps)
  show "ranks = [] \<longleftrightarrow> (\<forall>i<length g. rank options i = None)"
    unfolding r add_node_fold_no_ranks by auto
  show "groups = [] \<longleftrightarrow> (\<forall>i<length g. group_of options i = None)"
    unfolding gs add_node_fold_no_groups by auto
qed

text \<open>
  The rank and group constraints are between nodes of the dag; adding them does not
  throw and leaves the objective coefficients alone.
\<close>

lemma add_ranks_keeps:
  assumes "snd ` set ranks \<subseteq> dom (variables m)"
  shows "\<exists>m'. add_ranks ranks m = Inr m'
           \<and> dom (variables m') = dom (variables m) \<and> opt_coef m' = opt_coef m"
  unfolding add_ranks_def
proof (rule foldE_invariant
    [where P = "\<lambda>m'. dom (variables m') = dom (variables m) \<and> opt_coef m' = opt_coef m"])
  fix p s
  assume p: "p \<in> set (bigrams (sort_key fst ranks))"
    and s: "dom (variables s) = dom (variables m) \<and> opt_coef s = opt_coef m"
  obtain frank fnode srank snode where pp: "p = ((frank, fnode), (srank, snode))"
    by (metis surj_pair)
  from bigrams_subset [OF p [unfolded pp]] have "(frank, fnode) \<in> set ranks"
    "(srank, snode) \<in> set ranks" by simp_all
  then have "fnode \<in> snd ` set ranks" "snode \<in> snd ` set ranks" by force+
  with assms s have f: "fnode \<in> dom (variables s)" and sn: "snode \<in> dom (variables s)"
    by auto
  show "\<exists>s'. add_rank p s = Inr s'
          \<and> dom (variables s') = dom (variables m) \<and> opt_coef s' = opt_coef m"
    using before_keeps [OF f sn, of "''rank''" 1] equal_layer_keeps [OF f sn, of "''rank''"] s
    by (auto simp: add_rank_def pp)
qed simp

lemma add_groups_keeps:
  assumes "group_nodes groups \<subseteq> dom (variables m)"
  shows "\<exists>m'. add_groups groups m = Inr m'
           \<and> dom (variables m') = dom (variables m) \<and> opt_coef m' = opt_coef m"
  unfolding add_groups_def
proof (rule foldE_invariant
    [where P = "\<lambda>m'. dom (variables m') = dom (variables m) \<and> opt_coef m' = opt_coef m"])
  fix grp s
  assume grp: "grp \<in> set groups"
    and s: "dom (variables s) = dom (variables m) \<and> opt_coef s = opt_coef m"
  have sub: "set (snd grp) \<subseteq> dom (variables m)"
    using assms grp by (auto simp: group_nodes_def)
  show "\<exists>s'. foldE (\<lambda>(first, second). equal_layer ''group'' first second) (bigrams (snd grp)) s
               = Inr s'
          \<and> dom (variables s') = dom (variables m) \<and> opt_coef s' = opt_coef m"
  proof (rule foldE_invariant
      [where P = "\<lambda>m'. dom (variables m') = dom (variables m) \<and> opt_coef m' = opt_coef m"])
    fix p t
    assume p: "p \<in> set (bigrams (snd grp))"
      and t: "dom (variables t) = dom (variables m) \<and> opt_coef t = opt_coef m"
    obtain a b where pp: "p = (a, b)" by (cases p)
    from bigrams_subset [OF p [unfolded pp]] sub t
    have a: "a \<in> dom (variables t)" and b: "b \<in> dom (variables t)" by auto
    show "\<exists>s'. (case p of (first, second) \<Rightarrow> equal_layer ''group'' first second) t = Inr s'
            \<and> dom (variables s') = dom (variables m) \<and> opt_coef s' = opt_coef m"
      using equal_layer_keeps [OF a b, of "''group''"] t by (auto simp: pp)
  qed (rule s)
qed simp

text \<open>The model handed to the solver.\<close>

lemma build_lp_result:
  assumes "wf_dag g"
  shows "\<exists>m ranks groups. build_lp options g = Inr (m, ranks, groups)
           \<and> (\<forall>w. objective (length g) m w = - total_span g w)
           \<and> (ranks = [] \<longleftrightarrow> (\<forall>i<length g. rank options i = None))
           \<and> (groups = [] \<longleftrightarrow> (\<forall>i<length g. group_of options i = None))"
proof -
  obtain m0 ranks groups where n0: "add_nodes options g = (m0, ranks, groups)"
    by (cases "add_nodes options g")
  note r = add_nodes_result [OF n0]
  have z: "objective (length g) m0 w = 0" for w
    using r(2) by (simp add: objective_def)
  from add_links_objective [OF assms r(1)] obtain m1 where m1: "add_links g m0 = Inr m1"
    "dom (variables m1) = {0 ..< length g}"
    "\<forall>w. objective (length g) m1 w = objective (length g) m0 w - total_span g w" by blast
  from add_ranks_keeps [of ranks m1] r(3) m1(2) obtain m2 where m2: "add_ranks ranks m1 = Inr m2"
    "dom (variables m2) = dom (variables m1)" "opt_coef m2 = opt_coef m1" by auto
  from add_groups_keeps [of groups m2] r(4) m1(2) m2(2) obtain m3 where
    m3: "add_groups groups m2 = Inr m3" "opt_coef m3 = opt_coef m2" by auto
  have "build_lp options g = Inr (m3, ranks, groups)"
    using n0 m1(1) m2(1) m3(1) by (simp add: build_lp_def bindE_def)
  moreover have "objective (length g) m3 w = - total_span g w" for w
    using objective_cong [of m3 m1 "length g" w] m3(2) m2(3) m1(3) z by simp
  ultimately show ?thesis using r(5,6) by blast
qed

text \<open>
  The coefficient of a node is the objective at the assignment that is 1 at the node and
  0 elsewhere.
\<close>

lemma objective_indicator:
  "j < n \<Longrightarrow> objective n m (\<lambda>i. if i = j then 1 else 0) = opt_coef m j"
proof -
  assume j: "j < n"
  have "opt_coef m i * (if i = j then 1 else 0) = 0 + (if i = j then opt_coef m j else 0)" for i
    by simp
  then have "objective n m (\<lambda>i. if i = j then 1 else 0)
               = (\<Sum>i\<leftarrow>[0 ..< n]. 0 + (if i = j then opt_coef m j else 0))"
    by (simp add: objective_def)
  also have "\<dots> = opt_coef m j"
    using sum_list_delta [OF j, of "\<lambda>i. 0" "opt_coef m j"] by simp
  finally show ?thesis .
qed

lemma incoming_counts:
  "sum_list (map ((\<lambda>(par, count). int count) \<circ> (\<lambda>(child, count). (p, count)))
               (filter (\<lambda>(child, count). child = j) cs))
     = (\<Sum>(child, count)\<leftarrow>cs. if child = j then int count else 0)"
  by (induction cs) auto

lemma span_indicator_link:
  "(\<Sum>(child, count)\<leftarrow>cs.
       ((if child = j then 1 else 0) - (if node = j then 1 else 0)) * int count)
     = (\<Sum>(child, count)\<leftarrow>cs. if child = j then int count else 0)
       - (if node = j then (\<Sum>(child, count)\<leftarrow>cs. int count) else 0)"
  by (induction cs) (auto simp: algebra_simps)

lemma sum_list_minus:
  "(\<Sum>x\<leftarrow>xs. f x - g x) = (\<Sum>x\<leftarrow>xs. f x) - (\<Sum>x\<leftarrow>xs. (g x :: int))"
  by (induction xs) auto

lemma sum_list_pick:
  "j < n \<Longrightarrow> (\<Sum>i\<leftarrow>[0 ..< n]. if i = j then f i else 0) = (f j :: int)"
  using sum_list_delta [of j n "\<lambda>i. 0" "f j"]
  by (simp add: interv_sum_list_conv_sum_set_nat)

lemma total_span_indicator:
  assumes "j < length g"
  shows "total_span g (\<lambda>i. if i = j then 1 else 0)
           = (\<Sum>(par, count)\<leftarrow>getParentCounts g j. int count)
             - (\<Sum>(child, count)\<leftarrow>ichildrenCounts g j. int count)"
proof -
  have inc: "(\<Sum>node\<leftarrow>ns. \<Sum>(child, count)\<leftarrow>ichildrenCounts g node.
                 if child = j then int count else 0)
        = (\<Sum>(par, count)\<leftarrow>concat (map (\<lambda>par. map (\<lambda>(child, count). (par, count))
                           (filter (\<lambda>(child, count). child = j) (ichildrenCounts g par)))
                 ns). int count)" for ns
    by (induction ns) (simp_all add: incoming_counts)
  have "total_span g (\<lambda>i. if i = j then 1 else 0)
          = (\<Sum>node\<leftarrow>[0 ..< length g].
               (\<Sum>(child, count)\<leftarrow>ichildrenCounts g node. if child = j then int count else 0)
               - (if node = j then (\<Sum>(child, count)\<leftarrow>ichildrenCounts g node. int count)
                  else 0))"
    by (simp add: total_span_def span_indicator_link)
  also have "\<dots> = (\<Sum>node\<leftarrow>[0 ..< length g].
               \<Sum>(child, count)\<leftarrow>ichildrenCounts g node. if child = j then int count else 0)
             - (\<Sum>node\<leftarrow>[0 ..< length g].
                  if node = j then (\<Sum>(child, count)\<leftarrow>ichildrenCounts g node. int count)
                  else 0)"
    by (rule sum_list_minus)
  also have "\<dots> = (\<Sum>(par, count)\<leftarrow>getParentCounts g j. int count)
             - (\<Sum>(child, count)\<leftarrow>ichildrenCounts g j. int count)"
    using sum_list_pick [OF assms,
        of "\<lambda>node. \<Sum>(child, count)\<leftarrow>ichildrenCounts g node. int count"]
    by (simp add: inc getParentCounts_def)
  finally show ?thesis .
qed

text \<open>
  Claim C4: the model \<^verbatim>\<open>simplexCall\<close> builds gives every node the coefficient ``counts
  of its outgoing links minus counts of its incoming links''; for every assignment of
  layers the objective is the negation of the total weighted edge span, so an assignment
  has a larger or equal objective exactly when it has a smaller or equal span.
\<close>

theorem simplex_objective_negated_span:
  assumes "wf_dag g"
  shows "\<exists>m ranks groups. build_lp options g = Inr (m, ranks, groups)
           \<and> (\<forall>node<length g. opt_coef m node
                  = (\<Sum>(child, count)\<leftarrow>ichildrenCounts g node. int count)
                    - (\<Sum>(par, count)\<leftarrow>getParentCounts g node. int count))
           \<and> (\<forall>x. objective (length g) m x = - total_span g x)
           \<and> (\<forall>x y. objective (length g) m x \<le> objective (length g) m y
                  \<longleftrightarrow> total_span g y \<le> total_span g x)"
proof -
  from build_lp_result [OF assms, of options] obtain m ranks groups where
    b: "build_lp options g = Inr (m, ranks, groups)"
    and obj: "\<forall>w. objective (length g) m w = - total_span g w" by blast
  have "opt_coef m node
          = (\<Sum>(child, count)\<leftarrow>ichildrenCounts g node. int count)
            - (\<Sum>(par, count)\<leftarrow>getParentCounts g node. int count)"
    if "node < length g" for node
    using obj objective_indicator [OF that, of m] total_span_indicator [OF that] by simp
  with b obj show ?thesis by auto
qed

theorem simplex_objective_negated_span_witness:
  "wf_dag triangle
   \<and> (\<exists>m ranks groups.
        build_lp \<lparr>rank = defaultAccessor, group_of = defaultAccessor\<rparr> triangle
          = Inr (m, ranks, groups)
        \<and> map (opt_coef m) [0, 1, 2] = [3, 0, - 3]
        \<and> objective (length triangle) m (\<lambda>node. int node) = - total_span triangle (\<lambda>node. int node)
        \<and> total_span triangle (\<lambda>node. int node) = 6)"
proof -
  have wf: "wf_dag triangle"
    by (simp add: wf_dag_def triangle_def)
  from simplex_objective_negated_span [OF wf, of "\<lparr>rank = defaultAccessor, group_of = defaultAccessor\<rparr>"]
  obtain m ranks groups where
    b: "build_lp \<lparr>rank = defaultAccessor, group_of = defaultAccessor\<rparr> triangle
          = Inr (m, ranks, groups)"
    and c: "\<forall>node<length triangle. opt_coef m node
                  = (\<Sum>(child, count)\<leftarrow>ichildrenCounts triangle node. int count)
                    - (\<Sum>(par, count)\<leftarrow>getParentCounts triangle node. int count)"
    and o: "\<forall>x. objective (length triangle) m x = - total_span triangle x"
    by blast
  have len: "length triangle = 3" by (simp add: triangle_def)
  have "opt_coef m 0 = 3" "opt_coef m 1 = 0" "opt_coef m 2 = - 3"
    using c [THEN spec, of 0] c [THEN spec, of 1] c [THEN spec, of 2]
    by (simp_all add: len, simp_all add: triangle_def ichildrenCounts_def getParentCounts_def upt_rec)
  moreover have "total_span triangle (\<lambda>node. int node) = 6"
    by (simp add: total_span_def triangle_def ichildrenCounts_def upt_rec)
  ultimately show ?thesis using wf b o by auto
qed

section \<open>Simplex layering: failure of the solver\<close>

text \<open>
  Claim C5: the operator throws the ill-defined-constraints error exactly when the solver
  fails and some node has a rank or a group; when the solver fails with no such node, it
  is the assertion that fails; with the default accessors the error is never thrown; and
  when the solver gives an assignment, every node gets its value, 0 where the assignment
  has none.
\<close>

theorem simplexCall_failure:
  assumes "wf_dag g"
  shows "\<exists>m ranks groups. build_lp options g = Inr (m, ranks, groups)
           \<and> (simplexCall solve options g = Inl IllDefinedConstraints
                \<longleftrightarrow> solve m = None
                    \<and> (\<exists>node<length g. rank options node \<noteq> None \<or> group_of options node \<noteq> None))
           \<and> (solve m = None
                \<and> (\<forall>node<length g. rank options node = None \<and> group_of options node = None)
                \<longrightarrow> simplexCall solve options g = Inl FailedAssert)
           \<and> (rank options = defaultAccessor \<and> group_of options = defaultAccessor
                \<longrightarrow> simplexCall solve options g \<noteq> Inl IllDefinedConstraints)
           \<and> (\<forall>assignment. solve m = Some assignment
                \<longrightarrow> simplexCall solve options g
                      = Inr (\<lambda>node. if node < length g
                                    then Some (case assignment node of None \<Rightarrow> 0 | Some v \<Rightarrow> v)
                                    else None))"
proof -
  from build_lp_result [OF assms, of options] obtain m ranks groups where
    b: "build_lp options g = Inr (m, ranks, groups)"
    and r: "ranks = [] \<longleftrightarrow> (\<forall>i<length g. rank options i = None)"
    and gs: "groups = [] \<longleftrightarrow> (\<forall>i<length g. group_of options i = None)" by blast
  have call: "simplexCall solve options g =
      (case solve m of
         Some assignment \<Rightarrow>
           Inr (\<lambda>node. if node < length g
                        then Some (case assignment node of None \<Rightarrow> 0 | Some v \<Rightarrow> v)
                        else None)
       | None \<Rightarrow> if ranks \<noteq> [] \<or> groups \<noteq> [] then Inl IllDefinedConstraints
                 else Inl FailedAssert)"
    using b by (simp add: simplexCall_def bindE_def assert_def split: option.splits)
  have 1: "simplexCall solve options g = Inl IllDefinedConstraints
        \<longleftrightarrow> solve m = None
            \<and> (\<exists>node<length g. rank options node \<noteq> None \<or> group_of options node \<noteq> None)"
    using r gs by (auto simp: call split: option.splits)
  have 2: "solve m = None
        \<and> (\<forall>node<length g. rank options node = None \<and> group_of options node = None)
        \<longrightarrow> simplexCall solve options g = Inl FailedAssert"
    using r gs by (auto simp: call)
  have 3: "rank options = defaultAccessor \<and> group_of options = defaultAccessor
        \<longrightarrow> simplexCall solve options g \<noteq> Inl IllDefinedConstraints"
    using 1 by (auto simp: defaultAccessor_def)
  have 4: "\<forall>assignment. solve m = Some assignment
        \<longrightarrow> simplexCall solve options g
              = Inr (\<lambda>node. if node < length g
                            then Some (case assignment node of None \<Rightarrow> 0 | Some v \<Rightarrow> v)
                            else None)"
    by (simp add: call)
  from b 1 2 3 4 show ?thesis by blast
qed

theorem simplexCall_failure_witness:
  "wf_dag triangle
   \<and> simplexCall (\<lambda>m. None) \<lparr>rank = (\<lambda>node. Some 0), group_of = defaultAccessor\<rparr> triangle
       = Inl IllDefinedConstraints
   \<and> simplexCall (\<lambda>m. None) \<lparr>rank = defaultAccessor, group_of = defaultAccessor\<rparr> triangle
       = Inl FailedAssert
   \<and> simplexCall (\<lambda>m. Some [0 \<mapsto> 0, 2 \<mapsto> 2])
        \<lparr>rank = defaultAccessor, group_of = defaultAccessor\<rparr> triangle
       = Inr (\<lambda>node. if node < length triangle
                     then Some (case [0 \<mapsto> 0, 2 \<mapsto> 2] node of None \<Rightarrow> 0 | Some v \<Rightarrow> v)
                     else None)"
proof -
  have wf: "wf_dag triangle"
    by (simp add: wf_dag_def triangle_def)
  have len: "0 < length triangle" by (simp add: triangle_def)
  from simplexCall_failure [OF wf, of "\<lparr>rank = (\<lambda>node. Some 0), group_of = defaultAccessor\<rparr>"
      "\<lambda>m. None"] len
  have 1: "simplexCall (\<lambda>m. None) \<lparr>rank = (\<lambda>node. Some 0), group_of = defaultAccessor\<rparr> triangle
       = Inl IllDefinedConstraints"
    by auto
  from simplexCall_failure [OF wf, of "\<lparr>rank = defaultAccessor, group_of = defaultAccessor\<rparr>"
      "\<lambda>m. None"]
  have 2: "simplexCall (\<lambda>m. None) \<lparr>rank = defaultAccessor, group_of = defaultAccessor\<rparr> triangle
       = Inl FailedAssert"
    by (auto simp: defaultAccessor_def)
  from simplexCall_failure [OF wf, of "\<lparr>rank = defaultAccessor, group_of = defaultAccessor\<rparr>"
      "\<lambda>m. Some [0 \<mapsto> 0, 2 \<mapsto> 2]"]
  have 3: "simplexCall (\<lambda>m. Some [0 \<mapsto> 0, 2 \<mapsto> 2])
        \<lparr>rank = defaultAccessor, group_of = defaultAccessor\<rparr> triangle
       = Inr (\<lambda>node. if node < length triangle
                     then Some (case [0 \<mapsto> 0, 2 \<mapsto> 2] node of None \<Rightarrow> 0 | Some v \<Rightarrow> v)
                     else None)"
    by auto
  from wf 1 2 3 show ?thesis by blast
qed

end
